theory Spec2Isabelle
  imports Complex_Main
begin

section \<open>JavaScript strings\<close>

text \<open>
  A JavaScript string is a sequence of UTF-16 code units.  The literals of the program
  contain Cyrillic letters, so a code unit is a natural number here and a string is a
  list of them; the ASCII literals are written through \<open>asc\<close>.
\<close>

type_synonym jschar = nat
type_synonym jsstring = "nat list"

definition asc :: "string \<Rightarrow> jsstring" where
  "asc s = map of_char s"

text \<open>The \<open>\\d\<close> class, the \<open>\\s\<close> class (ECMAScript WhiteSpace and LineTerminator) and
  the line terminators that \<open>.\<close> refuses.\<close>

definition is_digit :: "jschar \<Rightarrow> bool" where
  "is_digit c = (48 \<le> c \<and> c \<le> 57)"

definition is_space :: "jschar \<Rightarrow> bool" where
  "is_space c = (c = 32 \<or> (9 \<le> c \<and> c \<le> 13) \<or> c = 160 \<or> c = 5760
     \<or> (8192 \<le> c \<and> c \<le> 8202) \<or> c = 8232 \<or> c = 8233 \<or> c = 8239 \<or> c = 8287
     \<or> c = 12288 \<or> c = 65279)"

definition is_line_terminator :: "jschar \<Rightarrow> bool" where
  "is_line_terminator c = (c = 10 \<or> c = 13 \<or> c = 8232 \<or> c = 8233)"

text \<open>\<open>String.prototype.trim\<close>: white space and line terminators leave both ends.\<close>

definition trim :: "jsstring \<Rightarrow> jsstring" where
  "trim s = rev (dropWhile is_space (rev (dropWhile is_space s)))"

text \<open>\<open>String.prototype.includes\<close>: some suffix of the string starts with the needle.\<close>

fun js_includes :: "jsstring \<Rightarrow> jsstring \<Rightarrow> bool" where
  "js_includes [] t = (t = [])"
| "js_includes (x # xs) t = (take (length t) (x # xs) = t \<or> js_includes xs t)"

section \<open>Regular expressions\<close>

text \<open>
  The patterns of the program, as syntax trees, and a backtracking matcher in the order
  of the ECMAScript semantics: alternatives left to right, a greedy quantifier tries one
  more iteration before it stops, a lazy one stops before it tries, an iteration of
  \<open>*\<close> that consumes nothing is dropped, and the groups inside a quantified term are
  cleared when an iteration starts.  A matcher state is the index reached, the input
  that is left, and the captures.
\<close>

datatype cclass = Digit | Space | Dot | Lit jschar

fun cmem :: "cclass \<Rightarrow> jschar \<Rightarrow> bool" where
  "cmem Digit c = is_digit c"
| "cmem Space c = is_space c"
| "cmem Dot c = (\<not> is_line_terminator c)"
| "cmem (Lit k) c = (c = k)"

datatype regex =
    Chr cclass
  | Str jsstring
  | Seq regex regex
  | Alt regex regex
  | Star regex
  | Lazy regex
  | Opt regex
  | Group nat regex
  | Bol
  | Eol

definition Plus :: "regex \<Rightarrow> regex" where
  "Plus r = Seq r (Star r)"

type_synonym caps = "nat \<Rightarrow> jsstring option"
type_synonym mstate = "nat \<times> jsstring \<times> caps"

fun groups :: "regex \<Rightarrow> nat list" where
  "groups (Chr k) = []"
| "groups (Str w) = []"
| "groups (Seq a b) = groups a @ groups b"
| "groups (Alt a b) = groups a @ groups b"
| "groups (Star a) = groups a"
| "groups (Lazy a) = groups a"
| "groups (Opt a) = groups a"
| "groups (Group n a) = n # groups a"
| "groups Bol = []"
| "groups Eol = []"

definition reset :: "nat list \<Rightarrow> mstate \<Rightarrow> mstate" where
  "reset gs st = (case st of (p, s, c) \<Rightarrow> (p, s, (\<lambda>n. if n \<in> set gs then None else c n)))"

definition progress :: "mstate \<Rightarrow> mstate \<Rightarrow> bool" where
  "progress st st' = (length (fst (snd st')) < length (fst (snd st)))"

fun star_iter :: "(mstate \<Rightarrow> mstate list) \<Rightarrow> nat \<Rightarrow> mstate \<Rightarrow> mstate list" where
  "star_iter f 0 st = [st]"
| "star_iter f (Suc n) st = concat (map (star_iter f n) (filter (progress st) (f st))) @ [st]"

fun lazy_iter :: "(mstate \<Rightarrow> mstate list) \<Rightarrow> nat \<Rightarrow> mstate \<Rightarrow> mstate list" where
  "lazy_iter f 0 st = [st]"
| "lazy_iter f (Suc n) st = st # concat (map (lazy_iter f n) (filter (progress st) (f st)))"

fun matches :: "regex \<Rightarrow> mstate \<Rightarrow> mstate list" where
  "matches (Chr k) st =
     (case st of (p, s, c) \<Rightarrow>
        (case s of [] \<Rightarrow> [] | x # xs \<Rightarrow> if cmem k x then [(Suc p, xs, c)] else []))"
| "matches (Str w) st =
     (case st of (p, s, c) \<Rightarrow>
        if take (length w) s = w then [(p + length w, drop (length w) s, c)] else [])"
| "matches (Seq a b) st = concat (map (matches b) (matches a st))"
| "matches (Alt a b) st = matches a st @ matches b st"
| "matches (Star a) st =
     star_iter (\<lambda>st'. matches a (reset (groups a) st')) (length (fst (snd st))) st"
| "matches (Lazy a) st =
     lazy_iter (\<lambda>st'. matches a (reset (groups a) st')) (length (fst (snd st))) st"
| "matches (Opt a) st = filter (progress st) (matches a (reset (groups a) st)) @ [st]"
| "matches (Group n a) st =
     map (\<lambda>st'. case st' of (p', s', c') \<Rightarrow>
            (p', s', c'(n := Some (take (p' - fst st) (fst (snd st)))))) (matches a st)"
| "matches Bol st = (if fst st = 0 then [st] else [])"
| "matches Eol st = (if fst (snd st) = [] then [st] else [])"

text \<open>
  \<open>RegExp.prototype.exec\<close> without the global flag: the first index from which the
  pattern matches, with the first match in backtracking order there.  The result is the
  index where the match starts and the state where it ends.
\<close>

fun exec_from :: "regex \<Rightarrow> nat \<Rightarrow> jsstring \<Rightarrow> (nat \<times> mstate) option" where
  "exec_from r p [] =
     (case matches r (p, [], (\<lambda>n. None)) of [] \<Rightarrow> None | st # sts \<Rightarrow> Some (p, st))"
| "exec_from r p (x # xs) =
     (case matches r (p, x # xs, (\<lambda>n. None)) of
        [] \<Rightarrow> exec_from r (Suc p) xs
      | st # sts \<Rightarrow> Some (p, st))"

text \<open>\<open>String.prototype.match\<close> with a pattern without the global flag: the captures of
  the first match, or nothing.\<close>

definition js_match :: "regex \<Rightarrow> jsstring \<Rightarrow> caps option" where
  "js_match r s = (case exec_from r 0 s of None \<Rightarrow> None | Some (i, (p, s', c)) \<Rightarrow> Some c)"

text \<open>A group that took no part in the match reads as the empty string in a replacement.\<close>

definition cap :: "caps \<Rightarrow> nat \<Rightarrow> jsstring" where
  "cap c n = (case c n of None \<Rightarrow> [] | Some w \<Rightarrow> w)"

text \<open>\<open>String.prototype.replace\<close> with a pattern without the global flag: the first match
  is replaced, the text before and after it stays.\<close>

definition js_replace :: "regex \<Rightarrow> (caps \<Rightarrow> jsstring) \<Rightarrow> jsstring \<Rightarrow> jsstring" where
  "js_replace r rep s =
     (case exec_from r 0 s of None \<Rightarrow> s | Some (i, (p, s', c)) \<Rightarrow> take i s @ rep c @ s')"

text \<open>
  \<open>String.prototype.replace\<close> with the global flag: matches are looked for from left to
  right, each search starting where the last match ended, one code unit further after an
  empty match.
\<close>

function replace_all_from :: "regex \<Rightarrow> (caps \<Rightarrow> jsstring) \<Rightarrow> nat \<Rightarrow> jsstring \<Rightarrow> jsstring" where
  "replace_all_from r rep p s =
     (case matches r (p, s, (\<lambda>n. None)) of
        [] \<Rightarrow> (case s of [] \<Rightarrow> [] | x # xs \<Rightarrow> x # replace_all_from r rep (Suc p) xs)
      | (p', s', c') # sts \<Rightarrow>
          if length s' < length s then rep c' @ replace_all_from r rep p' s'
          else (case s of [] \<Rightarrow> rep c' | x # xs \<Rightarrow> rep c' @ x # replace_all_from r rep (Suc p) xs))"
  by pat_completeness auto
termination
  by (relation "measure (\<lambda>(r, rep, p, s). length s)") auto

definition js_replace_all :: "regex \<Rightarrow> (caps \<Rightarrow> jsstring) \<Rightarrow> jsstring \<Rightarrow> jsstring" where
  "js_replace_all r rep s = replace_all_from r rep 0 s"

section \<open>Numbers\<close>

text \<open>
  \<open>parseFloat\<close> reads the longest prefix of the trimmed string that is a decimal literal
  and rounds its mathematical value to a double.  The rounding is a parameter \<open>rnd\<close> of
  the model: it takes what was read (a signed decimal value, an infinity, or nothing,
  which gives NaN) to the number type \<open>'f\<close>.
\<close>

datatype strnum = MV bool rat | Inf bool | NaN

definition digits_value :: "jsstring \<Rightarrow> nat" where
  "digits_value ds = foldl (\<lambda>acc d. 10 * acc + (d - 48)) 0 ds"

definition exponent_part :: "jsstring \<Rightarrow> int" where
  "exponent_part s =
     (case s of
        [] \<Rightarrow> 0
      | e # r \<Rightarrow>
          if e = 101 \<or> e = 69 then
            (case r of
               [] \<Rightarrow> 0
             | g # r' \<Rightarrow>
                 if g = 45 then
                   (if takeWhile is_digit r' = [] then 0
                    else - int (digits_value (takeWhile is_digit r')))
                 else if g = 43 then int (digits_value (takeWhile is_digit r'))
                 else int (digits_value (takeWhile is_digit r)))
          else 0)"

definition unsigned_literal :: "bool \<Rightarrow> jsstring \<Rightarrow> strnum" where
  "unsigned_literal neg s =
     (if take 8 s = asc ''Infinity'' then Inf neg
      else
        let ip = takeWhile is_digit s;
            r1 = dropWhile is_digit s;
            fp = (case r1 of [] \<Rightarrow> [] | d # r \<Rightarrow> if d = 46 then takeWhile is_digit r else []);
            r2 = (case r1 of [] \<Rightarrow> [] | d # r \<Rightarrow> if d = 46 then dropWhile is_digit r else r1)
        in if ip = [] \<and> fp = [] then NaN
           else MV neg ((of_nat (digits_value ip) + of_nat (digits_value fp) / 10 ^ length fp)
                         * (if exponent_part r2 < 0 then 1 / 10 ^ nat (- exponent_part r2)
                            else 10 ^ nat (exponent_part r2))))"

definition str_decimal_literal :: "jsstring \<Rightarrow> strnum" where
  "str_decimal_literal s =
     (case dropWhile is_space s of
        [] \<Rightarrow> NaN
      | x # xs \<Rightarrow>
          if x = 45 then unsigned_literal True xs
          else if x = 43 then unsigned_literal False xs
          else unsigned_literal False (x # xs))"

definition parseFloat :: "(strnum \<Rightarrow> 'f) \<Rightarrow> jsstring \<Rightarrow> 'f" where
  "parseFloat rnd s = rnd (str_decimal_literal s)"

section \<open>The donation record and its parser\<close>

record 'f donation =
  paymentMethod :: jsstring
  date :: jsstring
  time :: jsstring
  dateTime :: jsstring
  comment :: "jsstring option"
  grossAmount :: 'f
  tax :: 'f
  netAmount :: 'f
  currency :: jsstring

text \<open>\<open>/\\s+/g\<close>, the donation pattern and the pattern that strips stray numbers from the
  end of the comment, as the source writes them.\<close>

definition whitespaceRun :: regex where
  "whitespaceRun = Plus (Chr Space)"

definition amountPattern :: regex where
  "amountPattern = Seq (Plus (Chr Digit)) (Seq (Opt (Chr (Lit 46))) (Star (Chr Digit)))"

definition donationPattern :: regex where
  "donationPattern =
     Seq (Group 1 (Alt (Str [1045, 1056, 1048, 1055]) (Str (asc ''WebPay''))))
    (Seq (Plus (Chr Space))
    (Seq (Group 2 (Seq (Chr Digit) (Seq (Chr Digit) (Seq (Chr (Lit 46))
            (Seq (Chr Digit) (Seq (Chr Digit) (Seq (Chr (Lit 46))
            (Seq (Chr Digit) (Seq (Chr Digit) (Seq (Chr Digit) (Chr Digit)))))))))))
    (Seq (Plus (Chr Space))
    (Seq (Group 3 (Seq (Chr Digit) (Seq (Chr Digit) (Seq (Chr (Lit 58))
            (Seq (Chr Digit) (Seq (Chr Digit) (Seq (Chr (Lit 58))
            (Seq (Chr Digit) (Chr Digit)))))))))
    (Seq (Plus (Chr Space))
    (Seq (Group 4 (Lazy (Chr Dot)))
    (Seq (Plus (Chr Space))
    (Seq (Group 5 amountPattern)
    (Seq (Plus (Chr Space))
    (Seq (Group 6 amountPattern)
    (Seq (Plus (Chr Space))
    (Seq (Group 7 amountPattern)
    (Seq (Plus (Chr Space))
         (Str (asc ''BYN'')))))))))))))))"

text \<open>The repeated group of the pattern that strips stray numbers.\<close>

definition pieceRe :: regex where
  "pieceRe = Group 1 (Seq (Plus (Chr Space)) amountPattern)"

definition strayNumbers :: regex where
  "strayNumbers =
     Seq (Plus (Chr Space))
    (Seq amountPattern
    (Seq (Star pieceRe)
    (Seq (Star (Chr Space))
         Eol)))"

definition normalize :: "jsstring \<Rightarrow> jsstring" where
  "normalize messageText = js_replace_all whitespaceRun (\<lambda>c. [32]) (trim messageText)"

definition clean_comment :: "jsstring \<Rightarrow> jsstring option" where
  "clean_comment commentPart =
     (let comment = trim commentPart;
          comment = trim (js_replace strayNumbers (\<lambda>c. []) comment)
      in if comment = [] then None else Some comment)"

definition parseDonationMessage :: "(strnum \<Rightarrow> 'f) \<Rightarrow> jsstring \<Rightarrow> 'f donation option" where
  "parseDonationMessage rnd messageText =
     (let text = normalize messageText
      in case js_match donationPattern text of
           None \<Rightarrow> None
         | Some m \<Rightarrow>
             Some \<lparr> paymentMethod = cap m 1,
                    date = cap m 2,
                    time = cap m 3,
                    dateTime = cap m 2 @ [32] @ cap m 3,
                    comment = clean_comment (cap m 4),
                    grossAmount = parseFloat rnd (cap m 5),
                    tax = parseFloat rnd (cap m 6),
                    netAmount = parseFloat rnd (cap m 7),
                    currency = asc ''BYN'' \<rparr>)"

text \<open>The line of the specification's scenario:
  \<open>ERIP 13.01.2025 13:46:08 K.Yu. (loshadi seno) 30.00 0.06 29.94 BYN\<close>, in Cyrillic
  where the source has Cyrillic.\<close>

definition scenario_line :: jsstring where
  "scenario_line =
     [1045, 1056, 1048, 1055, 32] @ asc ''13.01.2025 13:46:08 ''
     @ [1050, 46, 1070, 46, 32, 40, 1083, 1086, 1096, 1072, 1076, 1080, 32, 1089, 1077, 1085, 1086, 41]
     @ asc '' 30.00 0.06 29.94 BYN''"

definition scenario_record :: "(strnum \<Rightarrow> 'f) \<Rightarrow> 'f donation" where
  "scenario_record rnd =
     \<lparr> paymentMethod = [1045, 1056, 1048, 1055],
       date = asc ''13.01.2025'',
       time = asc ''13:46:08'',
       dateTime = asc ''13.01.2025 13:46:08'',
       comment = Some [1050, 46, 1070, 46, 32, 40, 1083, 1086, 1096, 1072, 1076, 1080, 32,
                      1089, 1077, 1085, 1086, 41],
       grossAmount = rnd (MV False 30),
       tax = rnd (MV False (6 / 100)),
       netAmount = rnd (MV False (2994 / 100)),
       currency = asc ''BYN'' \<rparr>"

section \<open>The fixed shape of a donation line, as the specification words it\<close>

text \<open>
  A payment-method token, a \<open>DD.MM.YYYY\<close> date, an \<open>HH:MM:SS\<close> time, free text, three
  decimal amounts (digits, then optionally a point and more digits) and the currency
  literal, with white space in between.
\<close>

definition is_method :: "jsstring \<Rightarrow> bool" where
  "is_method pm = (pm = [1045, 1056, 1048, 1055] \<or> pm = asc ''WebPay'')"

definition is_date :: "jsstring \<Rightarrow> bool" where
  "is_date d = (length d = 10 \<and> list_all is_digit (take 2 d) \<and> d ! 2 = 46
     \<and> list_all is_digit (take 2 (drop 3 d)) \<and> d ! 5 = 46 \<and> list_all is_digit (drop 6 d))"

definition is_time :: "jsstring \<Rightarrow> bool" where
  "is_time t = (length t = 8 \<and> list_all is_digit (take 2 t) \<and> t ! 2 = 58
     \<and> list_all is_digit (take 2 (drop 3 t)) \<and> t ! 5 = 58 \<and> list_all is_digit (drop 6 t))"

definition is_amount :: "jsstring \<Rightarrow> bool" where
  "is_amount g =
     (takeWhile is_digit g \<noteq> [] \<and>
      (case dropWhile is_digit g of [] \<Rightarrow> True | d # fp \<Rightarrow> d = 46 \<and> list_all is_digit fp))"


definition is_gap :: "jsstring \<Rightarrow> bool" where
  "is_gap w = (w \<noteq> [] \<and> list_all is_space w)"

definition is_free_text :: "jsstring \<Rightarrow> bool" where
  "is_free_text cm = list_all (\<lambda>c. \<not> is_line_terminator c) cm"

definition fixed_shape ::
  "jsstring \<Rightarrow> jsstring \<Rightarrow> jsstring \<Rightarrow> jsstring \<Rightarrow> jsstring \<Rightarrow> jsstring \<Rightarrow> jsstring \<Rightarrow> jsstring \<Rightarrow> bool"
where
  "fixed_shape text pm d t cm g x n =
     (\<exists>pre w1 w2 w3 w4 w5 w6 w7 post.
        text = pre @ pm @ w1 @ d @ w2 @ t @ w3 @ cm @ w4 @ g @ w5 @ x @ w6 @ n @ w7
                 @ asc ''BYN'' @ post
        \<and> is_method pm \<and> is_gap w1 \<and> is_date d \<and> is_gap w2 \<and> is_time t \<and> is_gap w3
        \<and> is_free_text cm \<and> is_gap w4 \<and> is_amount g \<and> is_gap w5 \<and> is_amount x
        \<and> is_gap w6 \<and> is_amount n \<and> is_gap w7)"

text \<open>The mathematical value of an amount: its integer digits plus its fraction digits
  scaled by their count.\<close>

definition decimal_value :: "jsstring \<Rightarrow> rat" where
  "decimal_value g =
     (let ip = takeWhile is_digit g; fp = drop (Suc (length ip)) g
      in of_nat (digits_value ip) + of_nat (digits_value fp) / 10 ^ length fp)"


section \<open>Collapsing white space, as the specification words it\<close>

text \<open>Every run of white space becomes one space.\<close>

function collapse_spaces :: "jsstring \<Rightarrow> jsstring" where
  "collapse_spaces [] = []"
| "collapse_spaces (x # xs) =
     (if is_space x then 32 # collapse_spaces (dropWhile is_space xs)
      else x # collapse_spaces xs)"
  by pat_completeness auto
termination
  by (relation "measure length") (auto simp: length_dropWhile_le less_Suc_eq_le)

text \<open>A text is collapsed when it does not end in white space and each of its white
  space characters is a single space with a character that is not white space behind it.\<close>

fun collapsed :: "jsstring \<Rightarrow> bool" where
  "collapsed [] = True"
| "collapsed [x] = (\<not> is_space x)"
| "collapsed (x # y # r) = ((\<not> is_space x \<or> (x = 32 \<and> \<not> is_space y)) \<and> collapsed (y # r))"

section \<open>What the matcher accepts\<close>

text \<open>
  The matcher's results, without their order, as an inductive relation between the state
  where a pattern starts and a state where it can end.
\<close>

inductive sem :: "regex \<Rightarrow> mstate \<Rightarrow> mstate \<Rightarrow> bool" where
  sem_Chr: "cmem k x \<Longrightarrow> sem (Chr k) (p, x # s, c) (Suc p, s, c)"
| sem_Str: "sem (Str w) (p, w @ s, c) (p + length w, s, c)"
| sem_Seq: "sem a st st' \<Longrightarrow> sem b st' st'' \<Longrightarrow> sem (Seq a b) st st''"
| sem_AltL: "sem a st st' \<Longrightarrow> sem (Alt a b) st st'"
| sem_AltR: "sem b st st' \<Longrightarrow> sem (Alt a b) st st'"
| sem_Star0: "sem (Star a) st st"
| sem_StarS: "sem a (reset (groups a) st) st' \<Longrightarrow> progress st st' \<Longrightarrow> sem (Star a) st' st''
     \<Longrightarrow> sem (Star a) st st''"
| sem_Lazy0: "sem (Lazy a) st st"
| sem_LazyS: "sem a (reset (groups a) st) st' \<Longrightarrow> progress st st' \<Longrightarrow> sem (Lazy a) st' st''
     \<Longrightarrow> sem (Lazy a) st st''"
| sem_Opt0: "sem (Opt a) st st"
| sem_OptS: "sem a (reset (groups a) st) st' \<Longrightarrow> progress st st' \<Longrightarrow> sem (Opt a) st st'"
| sem_Group: "sem a (p, s, c) (p', s', c')
     \<Longrightarrow> sem (Group n a) (p, s, c) (p', s', c'(n := Some (take (p' - p) s)))"
| sem_Bol: "sem Bol (0, s, c) (0, s, c)"
| sem_Eol: "sem Eol (p, [], c) (p, [], c)"

section \<open>Dates\<close>

text \<open>
  The sort and the summary turn \<open>dateTime\<close> into a \<open>Date\<close> by rewriting the first
  \<open>DD.MM.YYYY\<close> in it to \<open>YYYY-MM-DD\<close> (\<open>/(\\d{2})\\.(\\d{2})\\.(\\d{4})/\<close> replaced by
  \<open>"$3-$2-$1"\<close>) and handing the result to \<open>new Date\<close>.
\<close>

definition datePattern :: regex where
  "datePattern =
     Seq (Group 1 (Seq (Chr Digit) (Chr Digit)))
    (Seq (Chr (Lit 46))
    (Seq (Group 2 (Seq (Chr Digit) (Chr Digit)))
    (Seq (Chr (Lit 46))
         (Group 3 (Seq (Chr Digit) (Seq (Chr Digit) (Seq (Chr Digit) (Chr Digit))))))))"

definition iso_order :: "jsstring \<Rightarrow> jsstring" where
  "iso_order dt = js_replace datePattern (\<lambda>c. cap c 3 @ [45] @ cap c 2 @ [45] @ cap c 1) dt"

text \<open>
  The time value of a date, after ECMAScript's \<open>DayFromYear\<close>, \<open>MakeDay\<close> and \<open>MakeTime\<close>,
  in milliseconds.  The string is read in the host's time zone; its offset is taken as
  constant and left out, since only differences and comparisons of time values are used.
\<close>

definition day_from_year :: "int \<Rightarrow> int" where
  "day_from_year y = 365 * (y - 1970) + (y - 1969) div 4 - (y - 1901) div 100 + (y - 1601) div 400"

definition in_leap_year :: "int \<Rightarrow> bool" where
  "in_leap_year y = ((y mod 4 = 0 \<and> y mod 100 \<noteq> 0) \<or> y mod 400 = 0)"

definition month_start :: "nat \<Rightarrow> bool \<Rightarrow> int" where
  "month_start m leap =
     int ([0, 31, 59, 90, 120, 151, 181, 212, 243, 273, 304, 334] ! (m - 1))
       + (if leap \<and> 2 < m then 1 else 0)"

definition time_value :: "nat \<times> nat \<times> nat \<times> nat \<times> nat \<times> nat \<Rightarrow> int" where
  "time_value f =
     (case f of (y, mo, d, h, mi, s) \<Rightarrow>
        (day_from_year (int y) + month_start mo (in_leap_year (int y)) + int d - 1) * 86400000
          + int h * 3600000 + int mi * 60000 + int s * 1000)"

text \<open>
  \<open>new Date(string)\<close> for a string \<open>YYYY-MM-DD HH:MM:SS\<close>, which is what the rewriting
  gives for the \<open>dateTime\<close> of a parsed record: the time value, or nothing (an invalid
  date, whose number is NaN) when a field is out of the range the engine accepts (month
  1 to 12, day 1 to 31, hour up to 23 or 24:00:00, minute and second up to 59).  Strings
  of another form are left to the engine's own fallback by ECMAScript and are not
  modelled: they read as invalid here.
\<close>

definition iso_fields :: "jsstring \<Rightarrow> nat \<times> nat \<times> nat \<times> nat \<times> nat \<times> nat" where
  "iso_fields s =
     (digits_value (take 4 s), digits_value (take 2 (drop 5 s)), digits_value (take 2 (drop 8 s)),
      digits_value (take 2 (drop 11 s)), digits_value (take 2 (drop 14 s)),
      digits_value (take 2 (drop 17 s)))"

definition js_Date :: "jsstring \<Rightarrow> int option" where
  "js_Date s =
     (if length s = 19 \<and> list_all is_digit (take 4 s) \<and> s ! 4 = 45
         \<and> list_all is_digit (take 2 (drop 5 s)) \<and> s ! 7 = 45
         \<and> list_all is_digit (take 2 (drop 8 s)) \<and> s ! 10 = 32
         \<and> list_all is_digit (take 2 (drop 11 s)) \<and> s ! 13 = 58
         \<and> list_all is_digit (take 2 (drop 14 s)) \<and> s ! 16 = 58
         \<and> list_all is_digit (take 2 (drop 17 s))
      then
        (case iso_fields s of (y, mo, d, h, mi, sec) \<Rightarrow>
           if 1 \<le> mo \<and> mo \<le> 12 \<and> 1 \<le> d \<and> d \<le> 31
              \<and> (h \<le> 23 \<or> (h = 24 \<and> mi = 0 \<and> sec = 0)) \<and> mi \<le> 59 \<and> sec \<le> 59
           then Some (time_value (y, mo, d, h, mi, sec))
           else None)
      else None)"

definition donation_date :: "'f donation \<Rightarrow> int option" where
  "donation_date d = js_Date (iso_order (dateTime d))"

text \<open>\<open>dateA - dateB\<close>: the difference of the time values, NaN (nothing) when a date is
  invalid.\<close>

definition date_difference :: "'f donation \<Rightarrow> 'f donation \<Rightarrow> int option" where
  "date_difference a b =
     (case donation_date a of
        None \<Rightarrow> None
      | Some x \<Rightarrow> (case donation_date b of None \<Rightarrow> None | Some y \<Rightarrow> Some (x - y)))"

section \<open>Sorting\<close>

text \<open>
  \<open>Array.prototype.sort\<close> with a comparator.  ECMAScript asks for a stable sort and reads
  a comparator result NaN as 0; it leaves the algorithm to the engine.  The model is the
  insertion sort that moves each element left past the elements it is less than.  For a
  comparator that is a consistent order every stable sort returns the same sequence.
\<close>

definition comes_before :: "('a \<Rightarrow> 'a \<Rightarrow> int option) \<Rightarrow> 'a \<Rightarrow> 'a \<Rightarrow> bool" where
  "comes_before cmp a b = (case cmp a b of None \<Rightarrow> False | Some v \<Rightarrow> v < 0)"

fun insert_from_right :: "('a \<Rightarrow> 'a \<Rightarrow> int option) \<Rightarrow> 'a \<Rightarrow> 'a list \<Rightarrow> 'a list" where
  "insert_from_right cmp x [] = [x]"
| "insert_from_right cmp x (y # ys) =
     (if comes_before cmp x y then y # insert_from_right cmp x ys else x # y # ys)"

text \<open>The sorted part is kept with its last element first.\<close>

definition js_sort :: "('a \<Rightarrow> 'a \<Rightarrow> int option) \<Rightarrow> 'a list \<Rightarrow> 'a list" where
  "js_sort cmp xs = rev (foldl (\<lambda>acc x. insert_from_right cmp x acc) [] xs)"

definition sort_donations :: "'f donation list \<Rightarrow> 'f donation list" where
  "sort_donations ds = js_sort date_difference ds"

section \<open>Calendar date-times, as the specification words them\<close>

text \<open>The fields of a \<open>DD.MM.YYYY HH:MM:SS\<close> text (year, month, day, hour, minute, second),
  when it is a date-time of the calendar, and the order of the calendar on them.\<close>

definition calendar_fields :: "jsstring \<Rightarrow> nat \<times> nat \<times> nat \<times> nat \<times> nat \<times> nat" where
  "calendar_fields dt =
     (digits_value (take 4 (drop 6 dt)), digits_value (take 2 (drop 3 dt)),
      digits_value (take 2 dt), digits_value (take 2 (drop 11 dt)),
      digits_value (take 2 (drop 14 dt)), digits_value (take 2 (drop 17 dt)))"

definition days_in_month :: "nat \<Rightarrow> nat \<Rightarrow> nat" where
  "days_in_month y m =
     (if m = 2 then (if in_leap_year (int y) then 29 else 28)
      else if m = 4 \<or> m = 6 \<or> m = 9 \<or> m = 11 then 30 else 31)"

definition is_calendar_datetime :: "jsstring \<Rightarrow> bool" where
  "is_calendar_datetime dt =
     (length dt = 19 \<and> is_date (take 10 dt) \<and> dt ! 10 = 32 \<and> is_time (drop 11 dt) \<and>
      (case calendar_fields dt of (y, mo, d, h, mi, s) \<Rightarrow>
         1 \<le> mo \<and> mo \<le> 12 \<and> 1 \<le> d \<and> d \<le> days_in_month y mo
         \<and> h \<le> 23 \<and> mi \<le> 59 \<and> s \<le> 59))"

fun fields_less :: "nat \<times> nat \<times> nat \<times> nat \<times> nat \<times> nat \<Rightarrow> nat \<times> nat \<times> nat \<times> nat \<times> nat \<times> nat \<Rightarrow> bool" where
  "fields_less (y, mo, d, h, mi, s) (y', mo', d', h', mi', s') =
     (y < y' \<or> (y = y' \<and> (mo < mo' \<or> (mo = mo' \<and> (d < d' \<or> (d = d' \<and> (h < h' \<or> (h = h'
        \<and> (mi < mi' \<or> (mi = mi' \<and> s < s'))))))))))"

definition earlier :: "jsstring \<Rightarrow> jsstring \<Rightarrow> bool" where
  "earlier a b = fields_less (calendar_fields a) (calendar_fields b)"

section \<open>The network and the clock\<close>

text \<open>
  What \<open>axios.get\<close> rejects with: an error with a message, a code, and possibly a cause
  with a code of its own (\<open>None\<close> is \<open>undefined\<close>).  The errors that \<open>fetchPageHtml\<close>
  throws have the same fields.
\<close>

record js_error =
  err_message :: "jsstring option"
  err_code :: "jsstring option"
  err_cause :: "jsstring option option"

text \<open>
  A page, as far as the program looks at it through its selectors: the text and the
  \<open>href\<close> of every \<open>.pagination ul li a\<close>, the text of \<open>.pagination .responsive-hide\<close>,
  and the text of every \<open>.postbody .content, .post .content\<close>.
\<close>

record page =
  links :: "(jsstring \<times> jsstring option) list"
  counter_text :: jsstring
  posts :: "jsstring list"

datatype reply = Ok page | Fail js_error

text \<open>
  The world outside: how many requests were sent, the clock in milliseconds, and a trace
  of what was done.  The network itself is a function from the number of the request and
  its URL to the time it takes and the reply.
\<close>

datatype event =
    Get jsstring
  | Backoff nat
  | Throttle nat
  | FetchPage nat
  | ResolvePages

record world =
  requests :: nat
  now :: int
  trace :: "event list"

type_synonym network = "nat \<Rightarrow> jsstring \<Rightarrow> nat \<times> reply"

definition axios_get :: "network \<Rightarrow> jsstring \<Rightarrow> world \<Rightarrow> reply \<times> world" where
  "axios_get net url w =
     (case net (requests w) url of
        (elapsed, rep) \<Rightarrow>
          (rep, w\<lparr> requests := Suc (requests w), now := now w + int elapsed,
                  trace := trace w @ [Get url] \<rparr>))"

definition wait_for :: "event \<Rightarrow> nat \<Rightarrow> world \<Rightarrow> world" where
  "wait_for ev ms w = w\<lparr> now := now w + int ms, trace := trace w @ [ev] \<rparr>"

definition log_event :: "event \<Rightarrow> world \<Rightarrow> world" where
  "log_event ev w = w\<lparr> trace := trace w @ [ev] \<rparr>"

section \<open>The scraper\<close>

text \<open>The options after the constructor has merged the defaults in; \<open>maxPages\<close> is
  \<open>None\<close> for \<open>null\<close>.  Numbers are non-negative integers.\<close>

record options =
  delay :: nat
  maxPages :: "nat option"
  cacheTtl :: nat
  userAgent :: jsstring
  timeout :: nat
  maxRetries :: nat

record raw_options =
  o_delay :: "nat option"
  o_maxPages :: "nat option"
  o_cacheTtl :: "nat option"
  o_userAgent :: "jsstring option"
  o_timeout :: "nat option"
  o_maxRetries :: "nat option"

datatype 'f cell = Txt jsstring | Num 'f

type_synonym 'f workbook = "'f cell list list"

record 'f cache =
  cache_donations :: "'f donation list option"
  cache_timestamp :: int
  cache_xlsx :: "'f workbook option"

record 'f scraper =
  baseUrl :: jsstring
  opts :: options
  donations :: "'f donation list"
  cache :: "'f cache"

text \<open>A default stands where an option is absent or falsy (\<open>options.delay || 500\<close>), and
  the option as given wins where it is present at all (\<open>...options\<close>).\<close>

definition or_default :: "nat option \<Rightarrow> nat \<Rightarrow> nat" where
  "or_default v dflt = (case v of None \<Rightarrow> dflt | Some n \<Rightarrow> n)"

definition default_userAgent :: jsstring where
  "default_userAgent = asc (''Mozilla/5.0 (Windows NT 10.0; Win64; x64) AppleWebKit/537.36 ''
     @ ''(KHTML, like Gecko) Chrome/122.0.0.0 Safari/537.36'')"

definition new_scraper :: "jsstring \<Rightarrow> raw_options \<Rightarrow> 'f scraper" where
  "new_scraper url options =
     \<lparr> baseUrl = url,
       opts = \<lparr> delay = or_default (o_delay options) 500,
                maxPages = o_maxPages options,
                cacheTtl = or_default (o_cacheTtl options) 1800000,
                userAgent = (case o_userAgent options of None \<Rightarrow> default_userAgent | Some u \<Rightarrow> u),
                timeout = or_default (o_timeout options) 30000,
                maxRetries = or_default (o_maxRetries options) 3 \<rparr>,
       donations = [],
       cache = \<lparr> cache_donations = None, cache_timestamp = 0, cache_xlsx = None \<rparr> \<rparr>"

text \<open>A number in a template literal: its decimal digits.\<close>

function decimal :: "nat \<Rightarrow> jsstring" where
  "decimal n = (if n < 10 then [48 + n] else decimal (n div 10) @ [48 + n mod 10])"
  by pat_completeness auto
termination
  by (relation "measure id") auto

definition startPattern :: regex where
  "startPattern = Seq (Str (asc ''start='')) (Plus (Chr Digit))"

definition buildPageUrl :: "'f scraper \<Rightarrow> nat \<Rightarrow> jsstring" where
  "buildPageUrl s pageNumber =
     (let url = baseUrl s
      in if 1 < pageNumber then
           (let startValue = (pageNumber - 1) * 20
            in if js_includes url (asc ''?'') then
                 (if js_includes url (asc ''start='')
                  then js_replace startPattern (\<lambda>c. asc ''start='' @ decimal startValue) url
                  else url @ asc ''&start='' @ decimal startValue)
               else url @ asc ''?start='' @ decimal startValue)
         else url)"

text \<open>\<open>a || b\<close> on strings that may be \<open>undefined\<close>: the empty string and \<open>undefined\<close>
  are falsy.\<close>

definition truthy :: "jsstring option \<Rightarrow> bool" where
  "truthy v = (case v of None \<Rightarrow> False | Some s \<Rightarrow> s \<noteq> [])"

definition retriableCodes :: "jsstring list" where
  "retriableCodes = [asc ''ECONNRESET'', asc ''ETIMEDOUT'', asc ''EAI_AGAIN'']"

definition error_code :: "js_error \<Rightarrow> jsstring option" where
  "error_code error =
     (if truthy (err_code error) then err_code error
      else (case err_cause error of None \<Rightarrow> None | Some c \<Rightarrow> c))"

definition error_message :: "js_error \<Rightarrow> jsstring" where
  "error_message error = (case err_message error of None \<Rightarrow> [] | Some m \<Rightarrow> m)"

definition retriable :: "js_error \<Rightarrow> bool" where
  "retriable error =
     ((case error_code error of None \<Rightarrow> False | Some c \<Rightarrow> c \<in> set retriableCodes)
      \<or> js_includes (error_message error) (asc ''socket hang up''))"

text \<open>The Russian texts of the messages: \<open>Ne udalos zagruzit stranitsu foruma (stranitsa \<close>,
  \<open>Neizvestnaya oshibka\<close> and \<open>Neizvestnaya oshibka zagruzki stranitsy\<close>.\<close>

definition friendly_prefix :: jsstring where
  "friendly_prefix =
     [1053, 1077, 32, 1091, 1076, 1072, 1083, 1086, 1089, 1100, 32, 1079, 1072, 1075, 1088, 1091,
      1079, 1080, 1090, 1100, 32, 1089, 1090, 1088, 1072, 1085, 1080, 1094, 1091, 32, 1092, 1086,
      1088, 1091, 1084, 1072, 32, 40, 1089, 1090, 1088, 1072, 1085, 1080, 1094, 1072, 32]"

definition unknown_error :: jsstring where
  "unknown_error =
     [1053, 1077, 1080, 1079, 1074, 1077, 1089, 1090, 1085, 1072, 1103, 32, 1086, 1096, 1080, 1073,
      1082, 1072]"

definition unknown_load_error :: jsstring where
  "unknown_load_error =
     unknown_error @ [32, 1079, 1072, 1075, 1088, 1091, 1079, 1082, 1080, 32, 1089, 1090, 1088,
      1072, 1085, 1080, 1094, 1099]"

definition cause_text :: "js_error \<Rightarrow> jsstring" where
  "cause_text error =
     (if error_message error \<noteq> [] then error_message error
      else if truthy (error_code error) then the (error_code error)
      else unknown_error)"

definition friendlyMessage :: "nat \<Rightarrow> js_error \<Rightarrow> jsstring" where
  "friendlyMessage pageNumber error =
     friendly_prefix @ decimal pageNumber @ asc ''). '' @ cause_text error"

definition finalError :: "nat \<Rightarrow> js_error \<Rightarrow> js_error" where
  "finalError pageNumber error =
     \<lparr> err_message = Some (friendlyMessage pageNumber error), err_code = error_code error,
       err_cause = None \<rparr>"

text \<open>
  The loop of \<open>fetchPageHtml\<close> from attempt \<open>attempt\<close> on, with the last error caught so
  far.  A reply is returned after the throttle delay; an error that is not retriable, or
  the error of the last attempt, is thrown as the final error; any other error is followed
  by a wait of \<open>500 * attempt\<close> milliseconds and the next attempt.
\<close>

function fetch_loop ::
  "network \<Rightarrow> options \<Rightarrow> jsstring \<Rightarrow> nat \<Rightarrow> nat \<Rightarrow> js_error option \<Rightarrow> world
     \<Rightarrow> (js_error + page) \<times> world"
where
  "fetch_loop net os url pageNumber attempt attemptError w =
     (if attempt \<le> maxRetries os then
        (case axios_get net url w of
           (Ok data, w1) \<Rightarrow>
             (Inr data, if delay os \<noteq> 0 then wait_for (Throttle (delay os)) (delay os) w1 else w1)
         | (Fail error, w1) \<Rightarrow>
             if attempt = maxRetries os \<or> \<not> retriable error
             then (Inl (finalError pageNumber error), w1)
             else fetch_loop net os url pageNumber (Suc attempt) (Some error)
                    (wait_for (Backoff (500 * attempt)) (500 * attempt) w1))
      else
        (Inl (case attemptError of
                None \<Rightarrow> \<lparr> err_message = Some unknown_load_error, err_code = None, err_cause = None \<rparr>
              | Some e \<Rightarrow> e), w))"
  by pat_completeness auto
termination
  by (relation "measure (\<lambda>(net, os, url, pageNumber, attempt, attemptError, w).
        Suc (maxRetries os) - attempt)") auto

definition fetchPageHtml ::
  "network \<Rightarrow> 'f scraper \<Rightarrow> nat \<Rightarrow> world \<Rightarrow> (js_error + page) \<times> world"
where
  "fetchPageHtml net s pageNumber w =
     fetch_loop net (opts s) (buildPageUrl s pageNumber) pageNumber 1 None
       (log_event (FetchPage pageNumber) w)"

text \<open>The waits between attempts that a trace shows, in milliseconds.\<close>

fun backoff_waits :: "event list \<Rightarrow> nat list" where
  "backoff_waits [] = []"
| "backoff_waits (Backoff ms # evs) = ms # backoff_waits evs"
| "backoff_waits (ev # evs) = backoff_waits evs"


text \<open>\<open>parseInt(text, 10)\<close> on a text that starts with digits.  The numbers of a forum
  page are far below \<open>2^53\<close>, where a double holds every integer.\<close>

definition parseInt :: "jsstring \<Rightarrow> nat" where
  "parseInt s = digits_value (takeWhile is_digit s)"

definition allDigits :: regex where
  "allDigits = Seq Bol (Seq (Plus (Chr Digit)) Eol)"

definition startValuePattern :: regex where
  "startValuePattern = Seq (Str (asc ''start='')) (Group 1 (Plus (Chr Digit)))"

definition messageCountPattern :: regex where
  "messageCountPattern =
     Seq (Group 1 (Plus (Chr Digit)))
    (Seq (Plus (Chr Space))
         (Str [1089, 1086, 1086, 1073, 1097, 1077, 1085, 1080, 1077]))"

text \<open>The body of the \<open>each\<close> over the pagination links.\<close>

definition link_step :: "nat \<Rightarrow> jsstring \<times> jsstring option \<Rightarrow> nat" where
  "link_step maxPage el =
     (let text = trim (fst el);
          maxPage1 = (if js_match allDigits text \<noteq> None \<and> maxPage < parseInt text
                      then parseInt text else maxPage)
      in if truthy (snd el) then
           (case js_match startValuePattern (the (snd el)) of
              None \<Rightarrow> maxPage1
            | Some m \<Rightarrow>
                (let startValue = parseInt (cap m 1);
                     p = nat \<lfloor>(of_nat startValue :: rat) / 20\<rfloor> + 1
                 in if maxPage1 < p then p else maxPage1))
         else maxPage1)"

definition determineTotalPages :: "page \<Rightarrow> nat" where
  "determineTotalPages html =
     (let maxPage = foldl link_step 1 (links html)
      in case js_match messageCountPattern (counter_text html) of
           None \<Rightarrow> maxPage
         | Some m \<Rightarrow>
             (let totalMessages = parseInt (cap m 1);
                  pagesFromCount = nat \<lceil>(of_nat totalMessages :: rat) / 20\<rceil>
              in if maxPage < pagesFromCount then pagesFromCount else maxPage))"






text \<open>\<open>String.prototype.split\<close> with a separator of one code unit.\<close>

fun split_on :: "jschar \<Rightarrow> jsstring \<Rightarrow> jsstring list" where
  "split_on k [] = [[]]"
| "split_on k (x # xs) =
     (if x = k then [] # split_on k xs
      else (case split_on k xs of [] \<Rightarrow> [[x]] | y # ys \<Rightarrow> (x # y) # ys))"

definition names_method :: "jsstring \<Rightarrow> bool" where
  "names_method text =
     (js_includes text [1045, 1056, 1048, 1055] \<or> js_includes text (asc ''WebPay''))"

definition extract_lines :: "(strnum \<Rightarrow> 'f) \<Rightarrow> jsstring list \<Rightarrow> 'f donation list" where
  "extract_lines rnd ls =
     concat (map (\<lambda>line.
        (let cleanLine = trim line
         in if cleanLine \<noteq> [] \<and> js_includes cleanLine (asc ''BYN'') \<and> names_method cleanLine
            then (case parseDonationMessage rnd cleanLine of None \<Rightarrow> [] | Some parsed \<Rightarrow> [parsed])
            else [])) ls)"

definition extractDonationsFromHtml :: "(strnum \<Rightarrow> 'f) \<Rightarrow> page \<Rightarrow> 'f donation list" where
  "extractDonationsFromHtml rnd html =
     concat (map (\<lambda>text.
        if text = [] \<or> \<not> names_method text then []
        else extract_lines rnd (split_on 10 text)) (posts html))"

definition headers :: "'f cell list" where
  "headers = map (\<lambda>h. Txt (asc h))
     [''Payment Method'', ''Date'', ''Time'', ''Comment'', ''Gross Amount'', ''Tax'',
      ''Net Amount'', ''Currency'']"

definition generateXLSX :: "'f donation list \<Rightarrow> 'f workbook" where
  "generateXLSX ds =
     headers # map (\<lambda>d. [Txt (paymentMethod d), Txt (date d), Txt (time d),
                          Txt (case comment d of None \<Rightarrow> [] | Some c \<Rightarrow> c),
                          Num (grossAmount d), Num (tax d), Num (netAmount d),
                          Txt (currency d)]) ds"

text \<open>The loop over the pages from \<open>pageNum\<close> to \<open>effectivePages\<close>: each page is fetched
  and its donations are pushed onto \<open>this.donations\<close>; an error ends the loop.\<close>

function fetch_pages ::
  "(strnum \<Rightarrow> 'f) \<Rightarrow> network \<Rightarrow> nat \<Rightarrow> nat \<Rightarrow> 'f scraper \<Rightarrow> world
     \<Rightarrow> (js_error + unit) \<times> 'f scraper \<times> world"
where
  "fetch_pages rnd net pageNum effectivePages s w =
     (if pageNum \<le> effectivePages then
        (case fetchPageHtml net s pageNum w of
           (Inl e, w1) \<Rightarrow> (Inl e, s, w1)
         | (Inr html, w1) \<Rightarrow>
             fetch_pages rnd net (Suc pageNum) effectivePages
               (s\<lparr> donations := donations s @ extractDonationsFromHtml rnd html \<rparr>) w1)
      else (Inr (), s, w))"
  by pat_completeness auto
termination
  by (relation "measure (\<lambda>(rnd, net, pageNum, effectivePages, s, w).
        Suc effectivePages - pageNum)") auto

text \<open>
  A scrape cycle.  \<open>this.donations\<close> is bound to a new array when the first page has been
  extracted, grows page by page and is sorted in place; the cache is written after the
  sort.  The array of the cache is the array of \<open>this.donations\<close> from then on, and is
  never written again: the next cycle binds \<open>this.donations\<close> to a new array first.
\<close>

definition effective_pages :: "options \<Rightarrow> nat \<Rightarrow> nat" where
  "effective_pages os totalPages =
     (case maxPages os of
        None \<Rightarrow> totalPages
      | Some limit \<Rightarrow> if limit \<noteq> 0 then min totalPages limit else totalPages)"

definition scrape_fresh ::
  "(strnum \<Rightarrow> 'f) \<Rightarrow> network \<Rightarrow> 'f scraper \<Rightarrow> world
     \<Rightarrow> (js_error + 'f donation list) \<times> 'f scraper \<times> world"
where
  "scrape_fresh rnd net s w =
     (case fetchPageHtml net s 1 w of
        (Inl e, w1) \<Rightarrow> (Inl e, s, w1)
      | (Inr firstHtml, w1) \<Rightarrow>
          (let totalPages = determineTotalPages firstHtml;
               w2 = log_event ResolvePages w1;
               effectivePages = effective_pages (opts s) totalPages;
               s1 = s\<lparr> donations := extractDonationsFromHtml rnd firstHtml \<rparr>
           in case fetch_pages rnd net 2 effectivePages s1 w2 of
                (Inl e, s2, w3) \<Rightarrow> (Inl e, s2, w3)
              | (Inr u, s2, w3) \<Rightarrow>
                  (let sorted = sort_donations (donations s2);
                       s3 = s2\<lparr> donations := sorted,
                                cache := \<lparr> cache_donations = Some sorted,
                                           cache_timestamp = now w3,
                                           cache_xlsx = Some (generateXLSX sorted) \<rparr> \<rparr>
                   in (Inr sorted, s3, w3))))"

definition scrapeAllDonations ::
  "(strnum \<Rightarrow> 'f) \<Rightarrow> network \<Rightarrow> 'f scraper \<Rightarrow> world
     \<Rightarrow> (js_error + 'f donation list) \<times> 'f scraper \<times> world"
where
  "scrapeAllDonations rnd net s w =
     (case cache_donations (cache s) of
        Some cached \<Rightarrow>
          if now w - cache_timestamp (cache s) < int (cacheTtl (opts s))
          then (Inr cached, s\<lparr> donations := cached \<rparr>, w)
          else scrape_fresh rnd net s w
      | None \<Rightarrow> scrape_fresh rnd net s w)"

text \<open>\<open>toLowerCase\<close> is a parameter \<open>lower\<close> of the model (the Unicode case tables).\<close>

definition filterDonationsByComments ::
  "(jsstring \<Rightarrow> jsstring) \<Rightarrow> 'f scraper \<Rightarrow> jsstring list option \<Rightarrow> 'f donation list"
where
  "filterDonationsByComments lower s searchTerms =
     (case searchTerms of
        None \<Rightarrow> donations s
      | Some terms \<Rightarrow>
          if terms = [] then donations s
          else filter (\<lambda>d. truthy (comment d)
                   \<and> list_ex (\<lambda>t. js_includes (lower (the (comment d))) (trim (lower t))) terms)
                 (donations s))"

text \<open>The sums are sums of doubles: the addition is a parameter \<open>fadd\<close> of the model, and
  the sums start from the number zero.\<close>

record 'f totals =
  tot_count :: nat
  tot_grossAmount :: 'f
  tot_tax :: 'f
  tot_netAmount :: 'f

definition calculateTotals ::
  "(strnum \<Rightarrow> 'f) \<Rightarrow> ('f \<Rightarrow> 'f \<Rightarrow> 'f) \<Rightarrow> 'f donation list \<Rightarrow> 'f totals"
where
  "calculateTotals rnd fadd ds =
     foldl (\<lambda>tot d. \<lparr> tot_count = tot_count tot + 1,
                       tot_grossAmount = fadd (tot_grossAmount tot) (grossAmount d),
                       tot_tax = fadd (tot_tax tot) (tax d),
                       tot_netAmount = fadd (tot_netAmount tot) (netAmount d) \<rparr>)
       \<lparr> tot_count = 0, tot_grossAmount = rnd (MV False 0), tot_tax = rnd (MV False 0),
         tot_netAmount = rnd (MV False 0) \<rparr> ds"

text \<open>
  The latest date: a \<open>reduce\<close> from \<open>null\<close> that keeps the date of a record when there is
  none yet or when it is greater than the one kept (a comparison with an invalid date is
  false).  The outer \<open>None\<close> is \<open>null\<close>, the inner one an invalid date.
\<close>

definition latest_step :: "int option option \<Rightarrow> 'f donation \<Rightarrow> int option option" where
  "latest_step m d =
     (let dt = donation_date d
      in case m of
           None \<Rightarrow> Some dt
         | Some mv \<Rightarrow>
             (case dt of
                None \<Rightarrow> m
              | Some x \<Rightarrow> (case mv of None \<Rightarrow> m | Some y \<Rightarrow> if y < x then Some dt else m)))"

definition latestDate :: "'f donation list \<Rightarrow> int option option" where
  "latestDate ds = (if ds \<noteq> [] then foldl latest_step None ds else None)"

text \<open>
  The summary message, by the values that its template shows: the search terms, the
  count, the latest date and the three sums.  The texts that \<open>toLocaleDateString\<close> and
  \<open>toFixed\<close> make of them are not modelled.
\<close>

record 'f summary =
  sum_terms :: "jsstring list"
  sum_count :: nat
  sum_latest :: "int option option"
  sum_gross :: 'f
  sum_tax :: 'f
  sum_net :: 'f

datatype 'f response =
    Success "'f workbook" "'f summary" nat "'f totals" "'f donation list"
  | Failure "jsstring option"

definition build_report ::
  "(strnum \<Rightarrow> 'f) \<Rightarrow> ('f \<Rightarrow> 'f \<Rightarrow> 'f) \<Rightarrow> (jsstring \<Rightarrow> jsstring) \<Rightarrow> 'f scraper \<Rightarrow> jsstring list
     \<Rightarrow> 'f response"
where
  "build_report rnd fadd lower s searchTerms =
     (let filtered = filterDonationsByComments lower s (Some searchTerms);
          xslxContent = generateXLSX filtered;
          tot = calculateTotals rnd fadd filtered
      in Success xslxContent
           \<lparr> sum_terms = searchTerms, sum_count = tot_count tot,
             sum_latest = latestDate (donations s),
             sum_gross = tot_grossAmount tot, sum_tax = tot_tax tot, sum_net = tot_netAmount tot \<rparr>
           (tot_count tot) tot filtered)"

text \<open>
  The task that \<open>processTelegramRequest\<close> puts on the queue, run alone: the scraper
  instance of the module is passed in and out.
\<close>

definition processTelegramRequest ::
  "(strnum \<Rightarrow> 'f) \<Rightarrow> ('f \<Rightarrow> 'f \<Rightarrow> 'f) \<Rightarrow> (jsstring \<Rightarrow> jsstring) \<Rightarrow> network
     \<Rightarrow> jsstring \<Rightarrow> jsstring \<Rightarrow> raw_options \<Rightarrow> 'f scraper option \<Rightarrow> world
     \<Rightarrow> 'f response \<times> 'f scraper option \<times> world"
where
  "processTelegramRequest rnd fadd lower net forumUrl searchTermsString options scraperInstance w =
     (let searchTerms = filter (\<lambda>t. t \<noteq> []) (map trim (split_on 44 searchTermsString));
          s = (case scraperInstance of
                 None \<Rightarrow> new_scraper forumUrl options
               | Some s0 \<Rightarrow> if baseUrl s0 \<noteq> forumUrl then new_scraper forumUrl options else s0)
      in case scrapeAllDonations rnd net s w of
           (Inl e, s', w') \<Rightarrow> (Failure (err_message e), Some s', w')
         | (Inr ds, s', w') \<Rightarrow> (build_report rnd fadd lower s' searchTerms, Some s', w'))"

text \<open>The scenario of the specification: a scraper that holds two records, with the
  comments \<open>seno dlya loshadi\<close> and \<open>na korm kotu\<close> (in Cyrillic).\<close>

definition hay_and_cat :: "(strnum \<Rightarrow> 'f) \<Rightarrow> 'f scraper" where
  "hay_and_cat rnd =
     (new_scraper (asc ''https://forum.example/viewtopic.php?f=15&t=54158'')
        \<lparr> o_delay = None, o_maxPages = None, o_cacheTtl = None, o_userAgent = None,
          o_timeout = None, o_maxRetries = None \<rparr>)
     \<lparr> donations :=
        [(scenario_record rnd)
           \<lparr> comment := Some [1089, 1077, 1085, 1086, 32, 1076, 1083, 1103, 32, 1083, 1086,
                               1096, 1072, 1076, 1080] \<rparr>,
         (scenario_record rnd)
           \<lparr> comment := Some [1085, 1072, 32, 1082, 1086, 1088, 1084, 32, 1082, 1086, 1090,
                               1091] \<rparr>] \<rparr>"



definition default_scraper :: "'f scraper" where
  "default_scraper =
     new_scraper (asc ''https://forum.example/viewtopic.php?f=15&t=54158'')
       \<lparr> o_delay = None, o_maxPages = None, o_cacheTtl = None, o_userAgent = None,
         o_timeout = None, o_maxRetries = None \<rparr>"


section \<open>Scenarios of a scrape cycle\<close>

text \<open>
  A thread of two pages.  The first page links to the second one and holds the line of
  the specification's scenario; the second page holds one line of an earlier day.
\<close>

definition second_line :: jsstring where
  "second_line = asc ''WebPay 12.01.2025 10:00:00 abc 10.00 0.20 9.80 BYN''"

definition second_record :: "(strnum \<Rightarrow> 'f) \<Rightarrow> 'f donation" where
  "second_record rnd =
     \<lparr> paymentMethod = asc ''WebPay'', date = asc ''12.01.2025'', time = asc ''10:00:00'',
       dateTime = asc ''12.01.2025 10:00:00'', comment = Some (asc ''abc''),
       grossAmount = rnd (MV False 10), tax = rnd (MV False (1 / 5)),
       netAmount = rnd (MV False (49 / 5)), currency = asc ''BYN'' \<rparr>"

definition first_of_two :: page where
  "first_of_two =
     \<lparr> links = [(asc ''2'', Some (asc ''./viewtopic.php?f=15&t=54158&start=20''))],
       counter_text = [], posts = [scenario_line] \<rparr>"

definition second_of_two :: page where
  "second_of_two =
     \<lparr> links = [(asc ''1'', Some (asc ''./viewtopic.php?f=15&t=54158''))],
       counter_text = [], posts = [second_line] \<rparr>"

definition second_url :: jsstring where
  "second_url = asc ''https://forum.example/viewtopic.php?f=15&t=54158&start=20''"

definition two_page_network :: network where
  "two_page_network k url = (10, Ok (if url = second_url then second_of_two else first_of_two))"

text \<open>The same thread when every request for the second page ends in a connection
  reset.\<close>

definition broken_network :: network where
  "broken_network k url =
     (if url = second_url
      then (10, Fail \<lparr> err_message = Some (asc ''read ECONNRESET''),
                       err_code = Some (asc ''ECONNRESET''), err_cause = None \<rparr>)
      else (10, Ok first_of_two))"

text \<open>A scraper whose cache was filled at time 0 with one record of an earlier cycle, and
  worlds of one second and of thirty minutes (the default time to live) after that.\<close>

definition old_record :: "(strnum \<Rightarrow> 'f) \<Rightarrow> 'f donation" where
  "old_record rnd =
     (scenario_record rnd)\<lparr> date := asc ''01.01.2025'', dateTime := asc ''01.01.2025 13:46:08'' \<rparr>"

definition cached_scraper :: "(strnum \<Rightarrow> 'f) \<Rightarrow> 'f scraper" where
  "cached_scraper rnd =
     default_scraper
       \<lparr> donations := [old_record rnd],
         cache := \<lparr> cache_donations = Some [old_record rnd], cache_timestamp = 0,
                    cache_xlsx = Some (generateXLSX [old_record rnd]) \<rparr> \<rparr>"

definition world_at :: "int \<Rightarrow> world" where
  "world_at t = \<lparr> requests = 0, now = t, trace = [] \<rparr>"

section \<open>The matcher enumerates what the pattern accepts\<close>

inductive_simps sem_Chr_iff: "sem (Chr k) st st'"
inductive_simps sem_Str_iff: "sem (Str w) st st'"
inductive_simps sem_Seq_iff: "sem (Seq a b) st st'"
inductive_simps sem_Alt_iff: "sem (Alt a b) st st'"
inductive_simps sem_Opt_iff: "sem (Opt a) st st'"
inductive_simps sem_Group_iff: "sem (Group n a) st st'"
inductive_simps sem_Bol_iff: "sem Bol st st'"
inductive_simps sem_Eol_iff: "sem Eol st st'"
inductive_simps sem_Star_iff: "sem (Star a) st st'"
inductive_simps sem_Lazy_iff: "sem (Lazy a) st st'"


lemma star_iter_sound:
  assumes f: "\<And>st st'. st' \<in> set (f st) \<Longrightarrow> sem a (reset (groups a) st) st'"
  shows "st' \<in> set (star_iter f n st) \<Longrightarrow> sem (Star a) st st'"
proof (induction n arbitrary: st)
  case 0
  then show ?case by (simp add: sem_Star0)
next
  case (Suc n)
  then show ?case
    by (auto intro: sem_Star0 sem_StarS dest: f)
qed

lemma star_iter_complete:
  assumes f: "\<And>st st'. sem a (reset (groups a) st) st' \<Longrightarrow> st' \<in> set (f st)"
  shows "sem (Star a) st st' \<Longrightarrow> length (fst (snd st)) \<le> n \<Longrightarrow> st' \<in> set (star_iter f n st)"
proof (induction "Star a" st st' arbitrary: n rule: sem.induct)
  case (sem_Star0 st)
  then show ?case by (cases n) auto
next
  case (sem_StarS st st' st'')
  then obtain m where n: "n = Suc m" and m: "length (fst (snd st')) \<le> m"
    by (cases n) (auto simp: progress_def)
  have "st'' \<in> set (star_iter f m st')" using sem_StarS.hyps m by blast
  moreover have "st' \<in> set (f st)" using sem_StarS.hyps f by blast
  ultimately show ?case
    unfolding n using \<open>progress st st'\<close> by (cases st') auto
qed

lemma lazy_iter_sound:
  assumes f: "\<And>st st'. st' \<in> set (f st) \<Longrightarrow> sem a (reset (groups a) st) st'"
  shows "st' \<in> set (lazy_iter f n st) \<Longrightarrow> sem (Lazy a) st st'"
proof (induction n arbitrary: st)
  case 0
  then show ?case by (simp add: sem_Lazy0)
next
  case (Suc n)
  then show ?case
    by (auto intro: sem_Lazy0 sem_LazyS dest: f)
qed

lemma lazy_iter_complete:
  assumes f: "\<And>st st'. sem a (reset (groups a) st) st' \<Longrightarrow> st' \<in> set (f st)"
  shows "sem (Lazy a) st st' \<Longrightarrow> length (fst (snd st)) \<le> n \<Longrightarrow> st' \<in> set (lazy_iter f n st)"
proof (induction "Lazy a" st st' arbitrary: n rule: sem.induct)
  case (sem_Lazy0 st)
  then show ?case by (cases n) auto
next
  case (sem_LazyS st st' st'')
  then obtain m where n: "n = Suc m" and m: "length (fst (snd st')) \<le> m"
    by (cases n) (auto simp: progress_def)
  have "st'' \<in> set (lazy_iter f m st')" using sem_LazyS.hyps m by blast
  moreover have "st' \<in> set (f st)" using sem_LazyS.hyps f by blast
  ultimately show ?case
    unfolding n using \<open>progress st st'\<close> by (cases st') auto
qed

lemma matches_sound: "st' \<in> set (matches r st) \<Longrightarrow> sem r st st'"
proof (induction r arbitrary: st st')
  case (Chr k)
  then show ?case by (auto simp: sem_Chr_iff split: prod.splits list.splits if_splits)
next
  case (Str w)
  then show ?case 
    by (cases st) (auto simp: sem_Str_iff split: if_splits, metis append_take_drop_id)
next
  case (Seq a b)
  from Seq.prems obtain x where "x \<in> set (matches a st)" "st' \<in> set (matches b x)"
    by auto
  then show ?case using Seq.IH by (blast intro: sem_Seq)
next
  case (Alt a b)
  from Alt.prems have "st' \<in> set (matches a st) \<or> st' \<in> set (matches b st)" by simp
  then show ?case using Alt.IH by (blast intro: sem_AltL sem_AltR)
next
  case (Star a)
  have f: "\<And>st st'. st' \<in> set ((\<lambda>st'. matches a (reset (groups a) st')) st)
      \<Longrightarrow> sem a (reset (groups a) st) st'"
    using Star.IH by blast
  from Star.prems
  have "st' \<in> set (star_iter (\<lambda>st'. matches a (reset (groups a) st')) (length (fst (snd st))) st)"
    by simp
  with f show ?case by (rule star_iter_sound)
next
  case (Lazy a)
  have f: "\<And>st st'. st' \<in> set ((\<lambda>st'. matches a (reset (groups a) st')) st)
      \<Longrightarrow> sem a (reset (groups a) st) st'"
    using Lazy.IH by blast
  from Lazy.prems
  have "st' \<in> set (lazy_iter (\<lambda>st'. matches a (reset (groups a) st')) (length (fst (snd st))) st)"
    by simp
  with f show ?case by (rule lazy_iter_sound)
next
  case (Opt a)
  from Opt.prems have "st' = st \<or> (st' \<in> set (matches a (reset (groups a) st)) \<and> progress st st')"
    by auto
  then show ?case using Opt.IH by (blast intro: sem_Opt0 sem_OptS)
next
  case (Group n a)
  obtain p s c where st: "st = (p, s, c)" by (cases st)
  from Group.prems obtain p' s' c' where x: "(p', s', c') \<in> set (matches a st)"
    and st': "st' = (p', s', c'(n := Some (take (p' - p) s)))"
    unfolding st by auto
  from x have "sem a (p, s, c) (p', s', c')" using Group.IH st by blast
  then show ?case unfolding st st' by (rule sem_Group)
next
  case Bol
  then show ?case by (cases st) (auto simp: sem_Bol_iff split: if_splits)
next
  case Eol
  then show ?case by (cases st) (auto simp: sem_Eol_iff split: if_splits)
qed

lemma matches_complete: "sem r st st' \<Longrightarrow> st' \<in> set (matches r st)"
proof (induction r arbitrary: st st')
  case (Chr k)
  then show ?case by (auto simp: sem_Chr_iff)
next
  case (Str w)
  then show ?case by (auto simp: sem_Str_iff)
next
  case (Seq a b)
  from Seq.prems obtain x where "sem a st x" "sem b x st'"
    by (auto simp: sem_Seq_iff)
  then have "x \<in> set (matches a st)" "st' \<in> set (matches b x)"
    using Seq.IH by blast+
  then show ?case by auto
next
  case (Alt a b)
  from Alt.prems have "sem a st st' \<or> sem b st st'" by (simp add: sem_Alt_iff)
  then have "st' \<in> set (matches a st) \<or> st' \<in> set (matches b st)" using Alt.IH by blast
  then show ?case by simp
next
  case (Star a)
  have f: "\<And>st st'. sem a (reset (groups a) st) st'
      \<Longrightarrow> st' \<in> set ((\<lambda>st'. matches a (reset (groups a) st')) st)"
    using Star.IH by blast
  have "st' \<in> set (star_iter (\<lambda>st'. matches a (reset (groups a) st')) (length (fst (snd st))) st)"
    using f Star.prems order_refl by (rule star_iter_complete)
  then show ?case by simp
next
  case (Lazy a)
  have f: "\<And>st st'. sem a (reset (groups a) st) st'
      \<Longrightarrow> st' \<in> set ((\<lambda>st'. matches a (reset (groups a) st')) st)"
    using Lazy.IH by blast
  have "st' \<in> set (lazy_iter (\<lambda>st'. matches a (reset (groups a) st')) (length (fst (snd st))) st)"
    using f Lazy.prems order_refl by (rule lazy_iter_complete)
  then show ?case by simp
next
  case (Opt a)
  from Opt.prems have "st' = st \<or> (sem a (reset (groups a) st) st' \<and> progress st st')"
    by (simp add: sem_Opt_iff)
  then have "st' = st \<or> (st' \<in> set (matches a (reset (groups a) st)) \<and> progress st st')"
    using Opt.IH by blast
  then show ?case by auto
next
  case (Group n a)
  from Group.prems obtain p s c p' s' c' where st: "st = (p, s, c)"
    and st': "st' = (p', s', c'(n := Some (take (p' - p) s)))" and x: "sem a (p, s, c) (p', s', c')"
    by (auto simp: sem_Group_iff)
  from x have "(p', s', c') \<in> set (matches a (p, s, c))" using Group.IH by blast
  then show ?case unfolding st st' by force
next
  case Bol
  then show ?case by (auto simp: sem_Bol_iff)
next
  case Eol
  then show ?case by (auto simp: sem_Eol_iff)
qed

theorem matches_sem: "set (matches r st) = {st'. sem r st st'}"
  by (auto intro: matches_sound matches_complete)

lemma reset_Nil [simp]: "reset [] st = st"
  by (cases st) (simp add: reset_def)

lemma sem_Star_Chr_fwd:
  "sem r st st' \<Longrightarrow> r = Star (Chr k) \<Longrightarrow>
     \<exists>u. fst (snd st) = u @ fst (snd st') \<and> list_all (cmem k) u
        \<and> fst st' = fst st + length u \<and> snd (snd st') = snd (snd st)"
proof (induction r st st' rule: sem.induct)
  case (sem_Star0 a st)
  then show ?case by simp
next
  case (sem_StarS a st st' st'')
  then obtain u where u: "fst (snd st') = u @ fst (snd st'')" "list_all (cmem k) u"
     "fst st'' = fst st' + length u" "snd (snd st'') = snd (snd st')" by auto
  from sem_StarS have "sem (Chr k) st st'" by simp
  then obtain x p s c where "st = (p, x # s, c)" "st' = (Suc p, s, c)" "cmem k x"
    by (auto simp: sem_Chr_iff)
  with u show ?case by (intro exI[of _ "x # u"]) auto
qed simp_all

lemma sem_Star_Chr_bwd:
  "list_all (cmem k) u \<Longrightarrow> sem (Star (Chr k)) (p, u @ s, c) (p + length u, s, c)"
proof (induction u arbitrary: p)
  case Nil
  then show ?case by (simp add: sem_Star0)
next
  case (Cons x u)
  have "sem (Chr k) (reset (groups (Chr k)) (p, (x # u) @ s, c)) (Suc p, u @ s, c)"
    using Cons.prems by (simp add: sem_Chr)
  moreover have "progress (p, (x # u) @ s, c) (Suc p, u @ s, c)" by (simp add: progress_def)
  moreover have "sem (Star (Chr k)) (Suc p, u @ s, c) (Suc p + length u, s, c)"
    using Cons.IH[of "Suc p"] Cons.prems by simp
  ultimately have "sem (Star (Chr k)) (p, (x # u) @ s, c) (Suc p + length u, s, c)"
    by (rule sem_StarS)
  then show ?case by simp
qed

lemma sem_Star_Chr:
  "sem (Star (Chr k)) (p, s, c) st' \<longleftrightarrow>
     (\<exists>u s'. s = u @ s' \<and> list_all (cmem k) u \<and> st' = (p + length u, s', c))"
proof
  assume "sem (Star (Chr k)) (p, s, c) st'"
  from sem_Star_Chr_fwd[OF this refl] show "\<exists>u s'. s = u @ s' \<and> list_all (cmem k) u \<and> st' = (p + length u, s', c)"
    by (cases st') auto
next
  assume "\<exists>u s'. s = u @ s' \<and> list_all (cmem k) u \<and> st' = (p + length u, s', c)"
  then show "sem (Star (Chr k)) (p, s, c) st'" by (auto intro: sem_Star_Chr_bwd)
qed

lemma sem_Lazy_Chr_fwd:
  "sem r st st' \<Longrightarrow> r = Lazy (Chr k) \<Longrightarrow>
     \<exists>u. fst (snd st) = u @ fst (snd st') \<and> list_all (cmem k) u
        \<and> fst st' = fst st + length u \<and> snd (snd st') = snd (snd st)"
proof (induction r st st' rule: sem.induct)
  case (sem_Lazy0 a st)
  then show ?case by simp
next
  case (sem_LazyS a st st' st'')
  then obtain u where u: "fst (snd st') = u @ fst (snd st'')" "list_all (cmem k) u"
     "fst st'' = fst st' + length u" "snd (snd st'') = snd (snd st')" by auto
  from sem_LazyS have "sem (Chr k) st st'" by simp
  then obtain x p s c where "st = (p, x # s, c)" "st' = (Suc p, s, c)" "cmem k x"
    by (auto simp: sem_Chr_iff)
  with u show ?case by (intro exI[of _ "x # u"]) auto
qed simp_all

lemma sem_Lazy_Chr_bwd:
  "list_all (cmem k) u \<Longrightarrow> sem (Lazy (Chr k)) (p, u @ s, c) (p + length u, s, c)"
proof (induction u arbitrary: p)
  case Nil
  then show ?case by (simp add: sem_Lazy0)
next
  case (Cons x u)
  have "sem (Chr k) (reset (groups (Chr k)) (p, (x # u) @ s, c)) (Suc p, u @ s, c)"
    using Cons.prems by (simp add: sem_Chr)
  moreover have "progress (p, (x # u) @ s, c) (Suc p, u @ s, c)" by (simp add: progress_def)
  moreover have "sem (Lazy (Chr k)) (Suc p, u @ s, c) (Suc p + length u, s, c)"
    using Cons.IH[of "Suc p"] Cons.prems by simp
  ultimately have "sem (Lazy (Chr k)) (p, (x # u) @ s, c) (Suc p + length u, s, c)"
    by (rule sem_LazyS)
  then show ?case by simp
qed

lemma sem_Lazy_Chr:
  "sem (Lazy (Chr k)) (p, s, c) st' \<longleftrightarrow>
     (\<exists>u s'. s = u @ s' \<and> list_all (cmem k) u \<and> st' = (p + length u, s', c))"
proof
  assume "sem (Lazy (Chr k)) (p, s, c) st'"
  from sem_Lazy_Chr_fwd[OF this refl] show "\<exists>u s'. s = u @ s' \<and> list_all (cmem k) u \<and> st' = (p + length u, s', c)"
    by (cases st') auto
next
  assume "\<exists>u s'. s = u @ s' \<and> list_all (cmem k) u \<and> st' = (p + length u, s', c)"
  then show "sem (Lazy (Chr k)) (p, s, c) st'" by (auto intro: sem_Lazy_Chr_bwd)
qed

lemma sem_Plus_Chr:
  "sem (Plus (Chr k)) (p, s, c) st' \<longleftrightarrow>
     (\<exists>u s'. s = u @ s' \<and> u \<noteq> [] \<and> list_all (cmem k) u \<and> st' = (p + length u, s', c))"
  (is "?L \<longleftrightarrow> ?R")
proof
  assume ?L
  then obtain x s1 u s' where "s = x # s1" "cmem k x" "s1 = u @ s'" "list_all (cmem k) u"
     "st' = (Suc p + length u, s', c)"
    by (auto simp: Plus_def sem_Seq_iff sem_Chr_iff sem_Star_Chr)
  then show ?R by (intro exI[of _ "x # u"] exI[of _ s']) simp
next
  assume ?R
  then obtain u s' where u: "s = u @ s'" "u \<noteq> []" "list_all (cmem k) u" "st' = (p + length u, s', c)"
    by blast
  then obtain x u' where "u = x # u'" by (cases u) auto
  with u show ?L
    by (auto simp: Plus_def sem_Seq_iff sem_Chr_iff sem_Star_Chr)
qed

lemma sem_Opt_Chr:
  "sem (Opt (Chr k)) (p, s, c) st' \<longleftrightarrow>
     (st' = (p, s, c) \<or> (\<exists>x s'. s = x # s' \<and> cmem k x \<and> st' = (Suc p, s', c)))"
  by (auto simp: sem_Opt_iff sem_Chr_iff progress_def)

section \<open>The patterns of the parser\<close>

lemma not_digit_46 [simp]: "\<not> is_digit 46"
  by (simp add: is_digit_def)

lemma takeWhile_all: "list_all P u \<Longrightarrow> takeWhile P (u @ v) = u @ takeWhile P v"
  by (induction u) auto

lemma dropWhile_all: "list_all P u \<Longrightarrow> dropWhile P (u @ v) = dropWhile P v"
  by (induction u) auto

lemma list_all_takeWhile: "list_all P (takeWhile P xs)"
  by (induction xs) auto

lemma is_amount_iff:
  "is_amount g \<longleftrightarrow>
     (\<exists>u v. u \<noteq> [] \<and> list_all is_digit u \<and> list_all is_digit v \<and> (g = u @ v \<or> g = u @ 46 # v))"
  (is "?L \<longleftrightarrow> ?R")
proof
  assume L: ?L
  let ?u = "takeWhile is_digit g"
  have g: "g = ?u @ dropWhile is_digit g" by simp
  show ?R
  proof (cases "dropWhile is_digit g")
    case Nil
    with g have "g = ?u @ []" by simp
    moreover from L have "?u \<noteq> []" by (simp add: is_amount_def)
    moreover have "list_all is_digit ?u" by (rule list_all_takeWhile)
    ultimately show ?thesis by (intro exI[of _ ?u] exI[of _ "[]"]) simp
  next
    case (Cons d fp)
    with L have "d = 46" "list_all is_digit fp" by (auto simp: is_amount_def)
    with g Cons have "g = ?u @ 46 # fp" by simp
    moreover from L have "?u \<noteq> []" by (simp add: is_amount_def)
    moreover have "list_all is_digit ?u" by (rule list_all_takeWhile)
    ultimately show ?thesis using \<open>list_all is_digit fp\<close>
      by (intro exI[of _ ?u] exI[of _ fp]) simp
  qed
next
  assume ?R
  then obtain u v where uv: "u \<noteq> []" "list_all is_digit u" "list_all is_digit v"
    "g = u @ v \<or> g = u @ 46 # v" by blast
  from uv(4) show ?L
  proof
    assume "g = u @ v"
    then have "list_all is_digit g" using uv by simp
    then have tw: "takeWhile is_digit g = g" "dropWhile is_digit g = []"
      by (simp_all add: list_all_iff)
    have "g \<noteq> []" using uv \<open>g = u @ v\<close> by simp
    then show ?thesis unfolding is_amount_def tw by simp
  next
    assume g: "g = u @ 46 # v"
    then have tw: "takeWhile is_digit g = u" "dropWhile is_digit g = 46 # v"
      using uv by (simp_all add: takeWhile_all dropWhile_all)
    show ?thesis unfolding is_amount_def tw using uv by simp
  qed
qed

lemma sem_amountPattern:
  "sem amountPattern (p, s, c) st' \<longleftrightarrow>
     (\<exists>g s'. s = g @ s' \<and> is_amount g \<and> st' = (p + length g, s', c))"
  (is "?L \<longleftrightarrow> ?R")
proof
  assume ?L
  then obtain st1 st2 where 1: "sem (Plus (Chr Digit)) (p, s, c) st1"
    and 2: "sem (Opt (Chr (Lit 46))) st1 st2" and 3: "sem (Star (Chr Digit)) st2 st'"
    unfolding amountPattern_def sem_Seq_iff by blast
  from 1 obtain u s1 where u: "s = u @ s1" "u \<noteq> []" "list_all (cmem Digit) u"
    and st1: "st1 = (p + length u, s1, c)"
    unfolding sem_Plus_Chr by blast
  from 2 have o: "st2 = (p + length u, s1, c) \<or> (\<exists>s2. s1 = 46 # s2 \<and> st2 = (Suc (p + length u), s2, c))"
    unfolding st1 sem_Opt_Chr by auto
  obtain p2 s2 c2 where st2: "st2 = (p2, s2, c2)" by (cases st2)
  from 3 obtain v s' where v0: "s2 = v @ s'" "list_all (cmem Digit) v" "st' = (p2 + length v, s', c2)"
    unfolding st2 sem_Star_Chr by blast
  from o st2 have c2: "c2 = c" by auto
  from v0 st2 c2 have v: "fst (snd st2) = v @ s'" "list_all (cmem Digit) v" "st' = (fst st2 + length v, s', c)"
    by auto
  from o show ?R
  proof
    assume "st2 = (p + length u, s1, c)"
    with u v have "s = (u @ v) @ s'" "is_amount (u @ v)" "st' = (p + length (u @ v), s', c)"
      by (auto simp: is_amount_iff list_all_iff)
    then show ?R by blast
  next
    assume "\<exists>s2. s1 = 46 # s2 \<and> st2 = (Suc (p + length u), s2, c)"
    with u v have "s = (u @ 46 # v) @ s'" "is_amount (u @ 46 # v)" "st' = (p + length (u @ 46 # v), s', c)"
      by (auto simp: is_amount_iff list_all_iff)
    then show ?R by blast
  qed
next
  assume ?R
  then obtain g s' where g: "s = g @ s'" "is_amount g" "st' = (p + length g, s', c)" by blast
  then obtain u v where uv: "u \<noteq> []" "list_all is_digit u" "list_all is_digit v"
    "g = u @ v \<or> g = u @ 46 # v" by (auto simp: is_amount_iff)
  have 1: "sem (Plus (Chr Digit)) (p, s, c) (p + length u, drop (length u) s, c)"
    using uv g by (auto simp: sem_Plus_Chr list_all_iff intro!: exI[of _ u])
  from uv(4) show ?L
  proof
    assume e: "g = u @ v"
    have 2: "sem (Opt (Chr (Lit 46))) (p + length u, drop (length u) s, c) (p + length u, drop (length u) s, c)"
      by (simp add: sem_Opt_Chr)
    have 3: "sem (Star (Chr Digit)) (p + length u, drop (length u) s, c) st'"
      using uv g e by (auto simp: sem_Star_Chr list_all_iff intro!: exI[of _ v])
    from 1 2 3 show ?L unfolding amountPattern_def by (blast intro: sem_Seq)
  next
    assume e: "g = u @ 46 # v"
    have 2: "sem (Opt (Chr (Lit 46))) (p + length u, drop (length u) s, c) (Suc (p + length u), v @ s', c)"
      using g e by (simp add: sem_Opt_Chr)
    have 3: "sem (Star (Chr Digit)) (Suc (p + length u), v @ s', c) st'"
      using uv g e by (auto simp: sem_Star_Chr list_all_iff intro!: exI[of _ v])
    from 1 2 3 show ?L unfolding amountPattern_def by (blast intro: sem_Seq)
  qed
qed

lemma sem_Group_word:
  assumes "\<And>p s c st'. sem a (p, s, c) st' \<longleftrightarrow> (\<exists>g s'. s = g @ s' \<and> P g \<and> st' = (p + length g, s', c))"
  shows "sem (Group n a) (p, s, c) st' \<longleftrightarrow>
     (\<exists>g s'. s = g @ s' \<and> P g \<and> st' = (p + length g, s', c(n := Some g)))"
  unfolding sem_Group_iff assms by auto

lemmas sem_Group_amount = sem_Group_word[of amountPattern is_amount, OF sem_amountPattern]

lemma sem_gap:
  "sem (Plus (Chr Space)) (p, s, c) st' \<longleftrightarrow>
     (\<exists>g s'. s = g @ s' \<and> is_gap g \<and> st' = (p + length g, s', c))"
  by (auto simp: sem_Plus_Chr is_gap_def list_all_iff)

lemma sem_free_text:
  "sem (Lazy (Chr Dot)) (p, s, c) st' \<longleftrightarrow>
     (\<exists>g s'. s = g @ s' \<and> is_free_text g \<and> st' = (p + length g, s', c))"
  by (auto simp: sem_Lazy_Chr is_free_text_def list_all_iff)

lemma sem_method:
  "sem (Alt (Str [1045, 1056, 1048, 1055]) (Str (asc ''WebPay''))) (p, s, c) st' \<longleftrightarrow>
     (\<exists>g s'. s = g @ s' \<and> is_method g \<and> st' = (p + length g, s', c))"
  by (auto simp: sem_Alt_iff sem_Str_iff is_method_def)

lemma is_date_iff:
  "is_date d \<longleftrightarrow> (\<exists>a b e f g h i j. d = [a, b, 46, e, f, 46, g, h, i, j]
      \<and> is_digit a \<and> is_digit b \<and> is_digit e \<and> is_digit f \<and> is_digit g \<and> is_digit h
      \<and> is_digit i \<and> is_digit j)"
  (is "?L \<longleftrightarrow> ?R")
proof
  assume ?L
  then have "length d = 10" by (simp add: is_date_def)
  then obtain a b x e f y g h i j where d: "d = [a, b, x, e, f, y, g, h, i, j]"
    by (auto simp: length_Suc_conv eval_nat_numeral)
  with \<open>?L\<close> show ?R by (auto simp: is_date_def eval_nat_numeral)
next
  assume ?R
  then show ?L by (auto simp: is_date_def eval_nat_numeral)
qed

lemma is_time_iff:
  "is_time d \<longleftrightarrow> (\<exists>a b e f g h. d = [a, b, 58, e, f, 58, g, h]
      \<and> is_digit a \<and> is_digit b \<and> is_digit e \<and> is_digit f \<and> is_digit g \<and> is_digit h)"
  (is "?L \<longleftrightarrow> ?R")
proof
  assume ?L
  then have "length d = 8" by (simp add: is_time_def)
  then obtain a b x e f y g h where d: "d = [a, b, x, e, f, y, g, h]"
    by (auto simp: length_Suc_conv eval_nat_numeral)
  with \<open>?L\<close> show ?R by (auto simp: is_time_def eval_nat_numeral)
next
  assume ?R
  then show ?L by (auto simp: is_time_def eval_nat_numeral)
qed

lemma sem_date:
  "sem (Seq (Chr Digit) (Seq (Chr Digit) (Seq (Chr (Lit 46))
            (Seq (Chr Digit) (Seq (Chr Digit) (Seq (Chr (Lit 46))
            (Seq (Chr Digit) (Seq (Chr Digit) (Seq (Chr Digit) (Chr Digit)))))))))) (p, s, c) st' \<longleftrightarrow>
     (\<exists>g s'. s = g @ s' \<and> is_date g \<and> st' = (p + length g, s', c))"
  by (auto simp: sem_Seq_iff sem_Chr_iff is_date_iff)

lemma sem_time:
  "sem (Seq (Chr Digit) (Seq (Chr Digit) (Seq (Chr (Lit 58))
            (Seq (Chr Digit) (Seq (Chr Digit) (Seq (Chr (Lit 58))
            (Seq (Chr Digit) (Chr Digit)))))))) (p, s, c) st' \<longleftrightarrow>
     (\<exists>g s'. s = g @ s' \<and> is_time g \<and> st' = (p + length g, s', c))"
  by (auto simp: sem_Seq_iff sem_Chr_iff is_time_iff)

lemma sem_BYN:
  "sem (Str (asc ''BYN'')) (p, s, c) st' \<longleftrightarrow>
     (\<exists>s'. s = asc ''BYN'' @ s' \<and> st' = (p + 3, s', c))"
  by (auto simp: sem_Str_iff asc_def)

lemmas sem_Group_method = sem_Group_word[where P=is_method, OF sem_method]
lemmas sem_Group_date = sem_Group_word[where P=is_date, OF sem_date]
lemmas sem_Group_time = sem_Group_word[where P=is_time, OF sem_time]
lemmas sem_Group_text = sem_Group_word[where P=is_free_text, OF sem_free_text]

lemma sem_Seq_word:
  assumes a: "\<And>p s c st'. sem a (p, s, c) st' \<longleftrightarrow> (\<exists>g s'. s = g @ s' \<and> P g \<and> st' = (p + length g, s', f g c))"
  shows "sem (Seq a b) (p, s, c) st' \<longleftrightarrow> (\<exists>g s'. s = g @ s' \<and> P g \<and> sem b (p + length g, s', f g c) st')"
  unfolding sem_Seq_iff a by auto

lemma sem_donationPattern:
  "sem donationPattern (p, s, c) st' \<longleftrightarrow>
     (\<exists>pm w1 d w2 t w3 cm w4 g w5 x w6 n w7 s'.
        s = pm @ w1 @ d @ w2 @ t @ w3 @ cm @ w4 @ g @ w5 @ x @ w6 @ n @ w7 @ asc ''BYN'' @ s'
        \<and> is_method pm \<and> is_gap w1 \<and> is_date d \<and> is_gap w2 \<and> is_time t \<and> is_gap w3
        \<and> is_free_text cm \<and> is_gap w4 \<and> is_amount g \<and> is_gap w5 \<and> is_amount x
        \<and> is_gap w6 \<and> is_amount n \<and> is_gap w7
        \<and> st' = (p + length (pm @ w1 @ d @ w2 @ t @ w3 @ cm @ w4 @ g @ w5 @ x @ w6 @ n @ w7) + 3, s',
                 c(1 := Some pm, 2 := Some d, 3 := Some t, 4 := Some cm, 5 := Some g,
                   6 := Some x, 7 := Some n)))"
  (is "?L \<longleftrightarrow> ?R")
proof -
  have L: "?L \<longleftrightarrow> (\<exists>pm s1. s = pm @ s1 \<and> is_method pm \<and> (\<exists>w1 s2. s1 = w1 @ s2 \<and> is_gap w1 \<and>
      (\<exists>d s3. s2 = d @ s3 \<and> is_date d \<and> (\<exists>w2 s4. s3 = w2 @ s4 \<and> is_gap w2 \<and>
      (\<exists>t s5. s4 = t @ s5 \<and> is_time t \<and> (\<exists>w3 s6. s5 = w3 @ s6 \<and> is_gap w3 \<and>
      (\<exists>cm s7. s6 = cm @ s7 \<and> is_free_text cm \<and> (\<exists>w4 s8. s7 = w4 @ s8 \<and> is_gap w4 \<and>
      (\<exists>g s9. s8 = g @ s9 \<and> is_amount g \<and> (\<exists>w5 s10. s9 = w5 @ s10 \<and> is_gap w5 \<and>
      (\<exists>x s11. s10 = x @ s11 \<and> is_amount x \<and> (\<exists>w6 s12. s11 = w6 @ s12 \<and> is_gap w6 \<and>
      (\<exists>n s13. s12 = n @ s13 \<and> is_amount n \<and> (\<exists>w7 s14. s13 = w7 @ s14 \<and> is_gap w7 \<and>
      (\<exists>s'. s14 = asc ''BYN'' @ s' \<and>
        st' = (p + length pm + length w1 + length d + length w2 + length t + length w3 + length cm
               + length w4 + length g + length w5 + length x + length w6 + length n + length w7 + 3, s',
               c(1 := Some pm, 2 := Some d, 3 := Some t, 4 := Some cm, 5 := Some g,
                   6 := Some x, 7 := Some n)))))))))))))))))"
    unfolding donationPattern_def
      sem_Seq_word[where a="Group 1 _", OF sem_Group_method]
      sem_Seq_word[where a="Plus (Chr Space)" and f="\<lambda>g c. c", OF sem_gap]
      sem_Seq_word[where a="Group 2 _", OF sem_Group_date]
      sem_Seq_word[where a="Group 3 _", OF sem_Group_time]
      sem_Seq_word[where a="Group 4 _", OF sem_Group_text]
      sem_Seq_word[where a="Group _ amountPattern", OF sem_Group_amount]
      sem_BYN
    by (rule refl)
  show ?thesis
  proof
    assume ?L
    then obtain pm w1 d w2 t w3 cm w4 g w5 x w6 n w7 s' s1 s2 s3 s4 s5 s6 s7 s8 s9 s10 s11 s12 s13 s14
      where e: "s = pm @ s1" "s1 = w1 @ s2" "s2 = d @ s3" "s3 = w2 @ s4" "s4 = t @ s5"
        "s5 = w3 @ s6" "s6 = cm @ s7" "s7 = w4 @ s8" "s8 = g @ s9" "s9 = w5 @ s10"
        "s10 = x @ s11" "s11 = w6 @ s12" "s12 = n @ s13" "s13 = w7 @ s14" "s14 = asc ''BYN'' @ s'"
      and c: "is_method pm" "is_gap w1" "is_date d" "is_gap w2" "is_time t" "is_gap w3"
        "is_free_text cm" "is_gap w4" "is_amount g" "is_gap w5" "is_amount x" "is_gap w6"
        "is_amount n" "is_gap w7"
      and st': "st' = (p + length pm + length w1 + length d + length w2 + length t + length w3 + length cm
               + length w4 + length g + length w5 + length x + length w6 + length n + length w7 + 3, s',
               c(1 := Some pm, 2 := Some d, 3 := Some t, 4 := Some cm, 5 := Some g,
                   6 := Some x, 7 := Some n))"
      unfolding L by (elim exE conjE) (rule that, assumption+)
    have "s = pm @ w1 @ d @ w2 @ t @ w3 @ cm @ w4 @ g @ w5 @ x @ w6 @ n @ w7 @ asc ''BYN'' @ s'"
      unfolding e by (rule refl)
    moreover have "st' = (p + length (pm @ w1 @ d @ w2 @ t @ w3 @ cm @ w4 @ g @ w5 @ x @ w6 @ n @ w7) + 3, s',
                 c(1 := Some pm, 2 := Some d, 3 := Some t, 4 := Some cm, 5 := Some g,
                   6 := Some x, 7 := Some n))"
      unfolding st' by simp
    ultimately show ?R using c by blast
  next
    assume ?R
    then obtain pm w1 d w2 t w3 cm w4 g w5 x w6 n w7 s'
      where e: "s = pm @ w1 @ d @ w2 @ t @ w3 @ cm @ w4 @ g @ w5 @ x @ w6 @ n @ w7 @ asc ''BYN'' @ s'"
      and c: "is_method pm" "is_gap w1" "is_date d" "is_gap w2" "is_time t" "is_gap w3"
        "is_free_text cm" "is_gap w4" "is_amount g" "is_gap w5" "is_amount x" "is_gap w6"
        "is_amount n" "is_gap w7"
      and st': "st' = (p + length (pm @ w1 @ d @ w2 @ t @ w3 @ cm @ w4 @ g @ w5 @ x @ w6 @ n @ w7) + 3, s',
                 c(1 := Some pm, 2 := Some d, 3 := Some t, 4 := Some cm, 5 := Some g,
                   6 := Some x, 7 := Some n))"
      by blast
    have st'': "st' = (p + length pm + length w1 + length d + length w2 + length t + length w3 + length cm
               + length w4 + length g + length w5 + length x + length w6 + length n + length w7 + 3, s',
               c(1 := Some pm, 2 := Some d, 3 := Some t, 4 := Some cm, 5 := Some g,
                   6 := Some x, 7 := Some n))"
      unfolding st' by simp
    show ?L unfolding L
      apply (rule exI[of _ pm], rule exI, intro conjI, rule e, rule c)
      apply (rule exI[of _ w1], rule exI, intro conjI, rule refl, rule c)
      apply (rule exI[of _ d], rule exI, intro conjI, rule refl, rule c)
      apply (rule exI[of _ w2], rule exI, intro conjI, rule refl, rule c)
      apply (rule exI[of _ t], rule exI, intro conjI, rule refl, rule c)
      apply (rule exI[of _ w3], rule exI, intro conjI, rule refl, rule c)
      apply (rule exI[of _ cm], rule exI, intro conjI, rule refl, rule c)
      apply (rule exI[of _ w4], rule exI, intro conjI, rule refl, rule c)
      apply (rule exI[of _ g], rule exI, intro conjI, rule refl, rule c)
      apply (rule exI[of _ w5], rule exI, intro conjI, rule refl, rule c)
      apply (rule exI[of _ x], rule exI, intro conjI, rule refl, rule c)
      apply (rule exI[of _ w6], rule exI, intro conjI, rule refl, rule c)
      apply (rule exI[of _ n], rule exI, intro conjI, rule refl, rule c)
      apply (rule exI[of _ w7], rule exI, intro conjI, rule refl, rule c)
      apply (rule exI[of _ s'], intro conjI, rule refl, rule st'')
      done
  qed
qed

section \<open>Searching for the first match\<close>

lemma exec_from_Some:
  "exec_from r p s = Some (i, st') \<Longrightarrow>
     \<exists>pre post. s = pre @ post \<and> i = p + length pre
        \<and> matches r (i, post, (\<lambda>n. None)) \<noteq> [] \<and> st' = hd (matches r (i, post, (\<lambda>n. None)))
        \<and> (\<forall>pre' post'. s = pre' @ post' \<and> length pre' < length pre
               \<longrightarrow> matches r (p + length pre', post', (\<lambda>n. None)) = [])"
proof (induction s arbitrary: p)
  case Nil
  then show ?case by (auto split: list.splits)
next
  case (Cons x xs)
  show ?case
  proof (cases "matches r (p, x # xs, (\<lambda>n. None))")
    case Nil
    with Cons.prems have "exec_from r (Suc p) xs = Some (i, st')" by simp
    from Cons.IH[OF this] obtain pre post where pp: "xs = pre @ post" "i = Suc p + length pre"
      "matches r (i, post, (\<lambda>n. None)) \<noteq> []" "st' = hd (matches r (i, post, (\<lambda>n. None)))"
      "\<forall>pre' post'. xs = pre' @ post' \<and> length pre' < length pre
               \<longrightarrow> matches r (Suc p + length pre', post', (\<lambda>n. None)) = []"
      by blast
    have "\<forall>pre' post'. x # xs = pre' @ post' \<and> length pre' < length (x # pre)
               \<longrightarrow> matches r (p + length pre', post', (\<lambda>n. None)) = []"
    proof (intro allI impI)
      fix pre' post' assume a: "x # xs = pre' @ post' \<and> length pre' < length (x # pre)"
      show "matches r (p + length pre', post', (\<lambda>n. None)) = []"
      proof (cases pre')
        case Nil
        with a Cons.prems \<open>matches r (p, x # xs, (\<lambda>n. None)) = []\<close> show ?thesis by simp
      next
        case (Cons y ys)
        with a have "xs = ys @ post'" "length ys < length pre" by auto
        with pp(5) have "matches r (Suc p + length ys, post', (\<lambda>n. None)) = []" by blast
        with Cons show ?thesis by simp
      qed
    qed
    with pp show ?thesis
      by (intro exI[of _ "x # pre"] exI[of _ post]) simp
  next
    case (Cons st sts)
    with Cons.prems have "i = p" "st' = st" by auto
    with Cons show ?thesis
      by (intro exI[of _ "[]"] exI[of _ "x # xs"]) simp
  qed
qed

lemma exec_from_None:
  "exec_from r p s = None \<longleftrightarrow>
     (\<forall>pre post. s = pre @ post \<longrightarrow> matches r (p + length pre, post, (\<lambda>n. None)) = [])"
proof (induction s arbitrary: p)
  case Nil
  then show ?case by (auto split: list.splits)
next
  case (Cons x xs)
  show ?case
  proof (cases "matches r (p, x # xs, (\<lambda>n. None))")
    case Nil
    have "(\<forall>pre post. x # xs = pre @ post \<longrightarrow> matches r (p + length pre, post, (\<lambda>n. None)) = [])
      \<longleftrightarrow> (\<forall>pre post. xs = pre @ post \<longrightarrow> matches r (Suc p + length pre, post, (\<lambda>n. None)) = [])"
      (is "?A \<longleftrightarrow> ?B")
    proof
      assume a: ?A
      show ?B
      proof (intro allI impI)
        fix pre post assume "xs = pre @ post"
        then have "x # xs = (x # pre) @ post" by simp
        with a have "matches r (p + length (x # pre), post, (\<lambda>n. None)) = []" by blast
        then show "matches r (Suc p + length pre, post, (\<lambda>n. None)) = []" by simp
      qed
    next
      assume b: ?B
      show ?A
      proof (intro allI impI)
        fix pre post assume e: "x # xs = pre @ post"
        show "matches r (p + length pre, post, (\<lambda>n. None)) = []"
        proof (cases pre)
          case Nil
          with e \<open>matches r (p, x # xs, (\<lambda>n. None)) = []\<close> show ?thesis by simp
        next
          case (Cons y ys)
          with e have "xs = ys @ post" by simp
          with b have "matches r (Suc p + length ys, post, (\<lambda>n. None)) = []" by blast
          with Cons show ?thesis by simp
        qed
      qed
    qed
    with Nil Cons.IH[of "Suc p"] show ?thesis by simp
  next
    case (Cons st sts)
    then have "exec_from r p (x # xs) \<noteq> None" by simp
    moreover have "\<not> (\<forall>pre post. x # xs = pre @ post \<longrightarrow> matches r (p + length pre, post, (\<lambda>n. None)) = [])"
    proof
      assume "\<forall>pre post. x # xs = pre @ post \<longrightarrow> matches r (p + length pre, post, (\<lambda>n. None)) = []"
      then have "matches r (p + length ([] :: nat list), x # xs, (\<lambda>n. None)) = []"
        by (metis append_Nil)
      with Cons show False by simp
    qed
    ultimately show ?thesis by blast
  qed
qed

lemma exec_from_sem:
  assumes "exec_from r 0 s = Some (i, st')"
  shows "\<exists>pre post. s = pre @ post \<and> i = length pre \<and> sem r (i, post, (\<lambda>n. None)) st'"
proof -
  from exec_from_Some[OF assms] obtain pre post where pp: "s = pre @ post" "i = 0 + length pre"
    "matches r (i, post, (\<lambda>n. None)) \<noteq> []" "st' = hd (matches r (i, post, (\<lambda>n. None)))"
    by blast
  then have "st' \<in> set (matches r (i, post, (\<lambda>n. None)))" by simp
  then have "sem r (i, post, (\<lambda>n. None)) st'" by (rule matches_sound)
  with pp show ?thesis by auto
qed

lemma sem_exec_from:
  assumes "sem r (length pre, post, (\<lambda>n. None)) st'"
  shows "exec_from r 0 (pre @ post) \<noteq> None"
proof
  assume "exec_from r 0 (pre @ post) = None"
  then have "matches r (0 + length pre, post, (\<lambda>n. None)) = []"
    unfolding exec_from_None by blast
  moreover from assms have "st' \<in> set (matches r (length pre, post, (\<lambda>n. None)))"
    by (rule matches_complete)
  ultimately show False by simp
qed

lemma js_match_donationPattern:
  assumes "js_match donationPattern text = Some m"
  shows "fixed_shape text (cap m 1) (cap m 2) (cap m 3) (cap m 4) (cap m 5) (cap m 6) (cap m 7)"
proof -
  from assms obtain i p' s' where "exec_from donationPattern 0 text = Some (i, (p', s', m))"
    by (auto simp: js_match_def split: option.splits)
  from exec_from_sem[OF this] obtain pre post where pp: "text = pre @ post"
    and s: "sem donationPattern (i, post, (\<lambda>n. None)) (p', s', m)" by blast
  from s obtain pm w1 d w2 t w3 cm w4 g w5 x w6 n w7
    where e: "post = pm @ w1 @ d @ w2 @ t @ w3 @ cm @ w4 @ g @ w5 @ x @ w6 @ n @ w7 @ asc ''BYN'' @ s'"
      and c: "is_method pm" "is_gap w1" "is_date d" "is_gap w2" "is_time t" "is_gap w3"
        "is_free_text cm" "is_gap w4" "is_amount g" "is_gap w5" "is_amount x" "is_gap w6"
        "is_amount n" "is_gap w7"
      and m: "m = (\<lambda>n. None)(1 := Some pm, 2 := Some d, 3 := Some t, 4 := Some cm, 5 := Some g,
                   6 := Some x, 7 := Some n)"
    unfolding sem_donationPattern by (elim exE conjE) (rule that, (assumption | simp)+)
  have caps: "cap m 1 = pm" "cap m 2 = d" "cap m 3 = t" "cap m 4 = cm" "cap m 5 = g"
    "cap m 6 = x" "cap m 7 = n"
    unfolding m cap_def by simp_all
  have "text = pre @ pm @ w1 @ d @ w2 @ t @ w3 @ cm @ w4 @ g @ w5 @ x @ w6 @ n @ w7 @ asc ''BYN'' @ s'"
    unfolding pp e by simp
  then show ?thesis unfolding fixed_shape_def caps using c by blast
qed

lemma fixed_shape_js_match:
  assumes "fixed_shape text pm d t cm g x n"
  shows "js_match donationPattern text \<noteq> None"
proof -
  from assms obtain pre w1 w2 w3 w4 w5 w6 w7 post
    where e: "text = pre @ pm @ w1 @ d @ w2 @ t @ w3 @ cm @ w4 @ g @ w5 @ x @ w6 @ n @ w7
                 @ asc ''BYN'' @ post"
      and c: "is_method pm" "is_gap w1" "is_date d" "is_gap w2" "is_time t" "is_gap w3"
        "is_free_text cm" "is_gap w4" "is_amount g" "is_gap w5" "is_amount x" "is_gap w6"
        "is_amount n" "is_gap w7"
    unfolding fixed_shape_def by blast
  let ?post = "pm @ w1 @ d @ w2 @ t @ w3 @ cm @ w4 @ g @ w5 @ x @ w6 @ n @ w7 @ asc ''BYN'' @ post"
  have "\<exists>st'. sem donationPattern (length pre, ?post, (\<lambda>n. None)) st'"
    unfolding sem_donationPattern using c by blast
  then obtain st' where "sem donationPattern (length pre, ?post, (\<lambda>n. None)) st'" ..
  then have "exec_from donationPattern 0 (pre @ ?post) \<noteq> None" by (rule sem_exec_from)
  then show ?thesis unfolding e js_match_def by (auto split: option.splits)
qed

lemma is_amount_literal:
  assumes "is_amount g"
  shows "str_decimal_literal g = MV False (decimal_value g)"
proof -
  let ?ip = "takeWhile is_digit g"
  from assms have ip: "?ip \<noteq> []" by (simp add: is_amount_def)
  then obtain a g' where g: "g = a # g'" and a: "is_digit a" by (cases g) (auto split: if_splits)
  from a have na: "\<not> is_space a" "a \<noteq> 45" "a \<noteq> 43" "a \<noteq> 73"
    by (auto simp: is_digit_def is_space_def)
  have inf: "take 8 g \<noteq> asc ''Infinity''" using g na by (simp add: asc_def)
  have sdl: "str_decimal_literal g = unsigned_literal False g"
    using g na by (simp add: str_decimal_literal_def)
  show ?thesis
  proof (cases "dropWhile is_digit g")
    case Nil
    then have tw: "takeWhile is_digit g = g" by (metis append_Nil2 takeWhile_dropWhile_id)
    have gne: "g \<noteq> []" using g by simp
    show ?thesis unfolding sdl unsigned_literal_def decimal_value_def Let_def Nil tw
      using inf gne by (simp add: exponent_part_def digits_value_def)
  next
    case (Cons d fp)
    with assms have d: "d = 46" and fp: "list_all is_digit fp" by (auto simp: is_amount_def)
    have "g = ?ip @ d # fp" using Cons by (metis takeWhile_dropWhile_id)
    then have dr: "drop (Suc (length ?ip)) g = fp"
      by (metis append_eq_conv_conj drop_Suc_Cons drop_drop plus_1_eq_Suc list.sel(3) tl_drop drop_Suc Cons)
    have tw: "takeWhile is_digit fp = fp" "dropWhile is_digit fp = []"
      using fp by (simp_all add: list_all_iff)
    show ?thesis unfolding sdl unsigned_literal_def decimal_value_def Let_def Cons dr
      using inf ip d by (simp add: exponent_part_def digits_value_def tw)
  qed
qed

section \<open>Parsing a donation line\<close>

lemma parse_scenario:
  "parseDonationMessage rnd scenario_line = Some (scenario_record rnd)"
  by (simp add: parseDonationMessage_def scenario_line_def scenario_record_def normalize_def
        js_replace_all_def
        whitespaceRun_def trim_def js_match_def donationPattern_def amountPattern_def
        clean_comment_def js_replace_def strayNumbers_def cap_def parseFloat_def
        str_decimal_literal_def unsigned_literal_def exponent_part_def digits_value_def
        asc_def Plus_def reset_def progress_def is_digit_def is_space_def is_line_terminator_def)

text \<open>
  C1.  A line whose collapsed text holds the fixed shape is parsed to a record; the record
  that \<open>parseDonationMessage\<close> returns carries a payment method, date and time that sit in
  the text in the fixed shape, and its three amounts are the values of the amount
  substrings of that match, rounded to a double by \<open>rnd\<close>; the scenario line gives the
  scenario record.
\<close>

theorem parseDonationMessage_amounts:
  "(fixed_shape (normalize s) pm d t cm g x n \<longrightarrow> parseDonationMessage rnd s \<noteq> None)
   \<and> (parseDonationMessage rnd s = Some r \<longrightarrow>
        (\<exists>cm g x n. fixed_shape (normalize s) (paymentMethod r) (date r) (time r) cm g x n
           \<and> grossAmount r = rnd (MV False (decimal_value g))
           \<and> tax r = rnd (MV False (decimal_value x))
           \<and> netAmount r = rnd (MV False (decimal_value n))
           \<and> currency r = asc ''BYN''))
   \<and> parseDonationMessage rnd scenario_line = Some (scenario_record rnd)"
proof (intro conjI impI)
  assume "fixed_shape (normalize s) pm d t cm g x n"
  then have "js_match donationPattern (normalize s) \<noteq> None" by (rule fixed_shape_js_match)
  then show "parseDonationMessage rnd s \<noteq> None"
    by (auto simp: parseDonationMessage_def)
next
  assume "parseDonationMessage rnd s = Some r"
  then obtain m where m: "js_match donationPattern (normalize s) = Some m"
    and r: "r = \<lparr> paymentMethod = cap m 1, date = cap m 2, time = cap m 3,
                 dateTime = cap m 2 @ [32] @ cap m 3, comment = clean_comment (cap m 4),
                 grossAmount = parseFloat rnd (cap m 5), tax = parseFloat rnd (cap m 6),
                 netAmount = parseFloat rnd (cap m 7), currency = asc ''BYN'' \<rparr>"
    by (auto simp: parseDonationMessage_def split: option.splits)
  from js_match_donationPattern[OF m]
  have f: "fixed_shape (normalize s) (cap m 1) (cap m 2) (cap m 3) (cap m 4) (cap m 5) (cap m 6) (cap m 7)" .
  then have "is_amount (cap m 5)" "is_amount (cap m 6)" "is_amount (cap m 7)"
    unfolding fixed_shape_def by blast+
  then have "parseFloat rnd (cap m 5) = rnd (MV False (decimal_value (cap m 5)))"
    "parseFloat rnd (cap m 6) = rnd (MV False (decimal_value (cap m 6)))"
    "parseFloat rnd (cap m 7) = rnd (MV False (decimal_value (cap m 7)))"
    by (simp_all add: parseFloat_def is_amount_literal)
  with f show "\<exists>cm g x n. fixed_shape (normalize s) (paymentMethod r) (date r) (time r) cm g x n
           \<and> grossAmount r = rnd (MV False (decimal_value g))
           \<and> tax r = rnd (MV False (decimal_value x))
           \<and> netAmount r = rnd (MV False (decimal_value n))
           \<and> currency r = asc ''BYN''"
    unfolding r by (intro exI[of _ "cap m 4"] exI[of _ "cap m 5"] exI[of _ "cap m 6"] exI[of _ "cap m 7"]) simp
next
  show "parseDonationMessage rnd scenario_line = Some (scenario_record rnd)"
    by (rule parse_scenario)
qed

theorem parseDonationMessage_amounts_witness:
  "fixed_shape (normalize scenario_line) [1045, 1056, 1048, 1055] (asc ''13.01.2025'')
     (asc ''13:46:08'')
     [1050, 46, 1070, 46, 32, 40, 1083, 1086, 1096, 1072, 1076, 1080, 32, 1089, 1077, 1085, 1086, 41]
     (asc ''30.00'') (asc ''0.06'') (asc ''29.94'')
   \<and> parseDonationMessage (\<lambda>v. v) scenario_line = Some (scenario_record (\<lambda>v. v))
   \<and> (\<exists>cm g x n. fixed_shape (normalize scenario_line) (paymentMethod (scenario_record (\<lambda>v. v)))
           (date (scenario_record (\<lambda>v. v))) (time (scenario_record (\<lambda>v. v))) cm g x n
         \<and> grossAmount (scenario_record (\<lambda>v. v)) = MV False (decimal_value g)
         \<and> tax (scenario_record (\<lambda>v. v)) = MV False (decimal_value x)
         \<and> netAmount (scenario_record (\<lambda>v. v)) = MV False (decimal_value n)
         \<and> currency (scenario_record (\<lambda>v. v)) = asc ''BYN'')"
proof -
  have n: "normalize scenario_line = scenario_line"
    by (simp add: scenario_line_def normalize_def js_replace_all_def whitespaceRun_def trim_def
          asc_def Plus_def reset_def progress_def is_space_def)
  have shape: "fixed_shape (normalize scenario_line) [1045, 1056, 1048, 1055] (asc ''13.01.2025'')
     (asc ''13:46:08'')
     [1050, 46, 1070, 46, 32, 40, 1083, 1086, 1096, 1072, 1076, 1080, 32, 1089, 1077, 1085, 1086, 41]
     (asc ''30.00'') (asc ''0.06'') (asc ''29.94'')"
    unfolding fixed_shape_def n
    apply (rule exI[of _ "[]"])
    apply (rule exI[of _ "[32]"])
    apply (rule exI[of _ "[32]"])
    apply (rule exI[of _ "[32]"])
    apply (rule exI[of _ "[32]"])
    apply (rule exI[of _ "[32]"])
    apply (rule exI[of _ "[32]"])
    apply (rule exI[of _ "[32]"])
    apply (rule exI[of _ "[]"])
    apply (simp add: scenario_line_def asc_def is_method_def is_gap_def is_date_def is_time_def
          is_free_text_def is_amount_def is_digit_def is_space_def is_line_terminator_def)
    done
  from parseDonationMessage_amounts[of scenario_line "[1045, 1056, 1048, 1055]" "asc ''13.01.2025''"
     "asc ''13:46:08''"
     "[1050, 46, 1070, 46, 32, 40, 1083, 1086, 1096, 1072, 1076, 1080, 32, 1089, 1077, 1085, 1086, 41]"
     "asc ''30.00''" "asc ''0.06''" "asc ''29.94''" "\<lambda>v. v" "scenario_record (\<lambda>v. v)"] shape
  show ?thesis by simp
qed

section \<open>The comment of a donation\<close>















section \<open>Collapsing white space is idempotent\<close>

lemma star_iter_nonempty: "star_iter f n st \<noteq> []"
  by (cases n) simp_all

lemma hd_star_space:
  "length s \<le> n \<Longrightarrow>
     fst (snd (hd (star_iter (\<lambda>st'. matches (Chr Space) (reset (groups (Chr Space)) st')) n (p, s, c))))
       = dropWhile is_space s"
proof (induction n arbitrary: p s c)
  case 0
  then show ?case by simp
next
  case (Suc n)
  show ?case
  proof (cases s)
    case Nil
    then show ?thesis by simp
  next
    case (Cons x xs)
    show ?thesis
    proof (cases "is_space x")
      case True
      from Suc.prems Cons have "length xs \<le> n" by simp
      from Suc.IH[OF this, of "Suc p" c] show ?thesis
        using Cons True by (simp add: progress_def star_iter_nonempty)
    next
      case False
      then show ?thesis using Cons by simp
    qed
  qed
qed

lemma matches_whitespaceRun_Nil:
  "s = [] \<or> \<not> is_space (hd s) \<Longrightarrow> matches whitespaceRun (p, s, c) = []"
  by (cases s) (auto simp: whitespaceRun_def Plus_def)

lemma matches_whitespaceRun_Cons:
  assumes "is_space x"
  shows "\<exists>p' c' sts. matches whitespaceRun (p, x # xs, c) = (p', dropWhile is_space xs, c') # sts"
proof -
  let ?l = "star_iter (\<lambda>st'. matches (Chr Space) (reset (groups (Chr Space)) st')) (length xs) (Suc p, xs, c)"
  have m: "matches whitespaceRun (p, x # xs, c) = ?l"
    using assms by (simp add: whitespaceRun_def Plus_def)
  have ne: "?l \<noteq> []" by (rule star_iter_nonempty)
  have "fst (snd (hd ?l)) = dropWhile is_space xs" by (rule hd_star_space) simp
  with ne obtain p' c' sts where "?l = (p', dropWhile is_space xs, c') # sts"
    by (cases ?l) (auto simp: prod_eq_iff)
  with m show ?thesis by metis
qed

lemma replace_all_collapse:
  "replace_all_from whitespaceRun (\<lambda>c. [32]) p s = collapse_spaces s"
proof (induction s arbitrary: p rule: length_induct)
  case (1 s)
  show ?case
  proof (cases s)
    case Nil
    then show ?thesis by (simp add: matches_whitespaceRun_Nil)
  next
    case (Cons x xs)
    show ?thesis
    proof (cases "is_space x")
      case True
      from matches_whitespaceRun_Cons[OF True, of p xs "\<lambda>n. None"] obtain p' c' sts
        where m: "matches whitespaceRun (p, x # xs, (\<lambda>n. None)) = (p', dropWhile is_space xs, c') # sts"
        by blast
      have l: "length (dropWhile is_space xs) < length (x # xs)"
        by (simp add: length_dropWhile_le less_Suc_eq_le)
      with 1 Cons have "replace_all_from whitespaceRun (\<lambda>c. [32]) p' (dropWhile is_space xs)
          = collapse_spaces (dropWhile is_space xs)" by blast
      with m l True show ?thesis unfolding Cons
        by (subst replace_all_from.simps) simp
    next
      case False
      then have m: "matches whitespaceRun (p, x # xs, (\<lambda>n. None)) = []"
        by (simp add: matches_whitespaceRun_Nil)
      from 1 Cons have "replace_all_from whitespaceRun (\<lambda>c. [32]) (Suc p) xs = collapse_spaces xs"
        by simp
      with m False show ?thesis unfolding Cons
        by (subst replace_all_from.simps) simp
    qed
  qed
qed

lemma normalize_collapse: "normalize s = collapse_spaces (trim s)"
  unfolding normalize_def js_replace_all_def by (rule replace_all_collapse)

lemma collapse_spaces_Nil_iff [simp]: "collapse_spaces u = [] \<longleftrightarrow> u = []"
  by (cases u) auto

lemma hd_collapse_spaces: "u \<noteq> [] \<Longrightarrow> \<not> is_space (hd u) \<Longrightarrow> hd (collapse_spaces u) = hd u"
  by (cases u) auto

lemma collapsed_collapse:
  "u = [] \<or> \<not> is_space (last u) \<Longrightarrow> collapsed (collapse_spaces u)"
proof (induction u rule: collapse_spaces.induct)
  case 1
  then show ?case by simp
next
  case (2 x xs)
  show ?case
  proof (cases "is_space x")
    case True
    let ?d = "dropWhile is_space xs"
    from 2 True have xs: "xs \<noteq> []" "\<not> is_space (last xs)" by (auto split: if_splits)
    then have "\<exists>y\<in>set xs. \<not> is_space y" using last_in_set by blast
    then have d: "?d \<noteq> []" by (simp add: dropWhile_eq_Nil_conv)
    then have hd: "\<not> is_space (hd ?d)" by (rule hd_dropWhile)
    have "last ?d = last xs" using d by (metis last_appendR takeWhile_dropWhile_id)
    with xs d have "?d = [] \<or> \<not> is_space (last ?d)" by simp
    with 2 True have IH: "collapsed (collapse_spaces ?d)" by simp
    obtain y r where yr: "collapse_spaces ?d = y # r" using d by (cases "collapse_spaces ?d") auto
    with hd_collapse_spaces[OF d hd] have "y = hd ?d" by simp
    with IH yr hd True show ?thesis by simp
  next
    case False
    show ?thesis
    proof (cases xs)
      case Nil
      with False show ?thesis by simp
    next
      case (Cons y ys)
      with 2 False have "collapsed (collapse_spaces xs)" by (auto split: if_splits)
      moreover have "collapse_spaces xs \<noteq> []"
        using Cons collapse_spaces_Nil_iff[of xs] by blast
      then obtain z r where "collapse_spaces xs = z # r"
        by (cases "collapse_spaces xs") blast+
      ultimately show ?thesis using False by simp
    qed
  qed
qed

lemma collapsed_fix: "collapsed t \<Longrightarrow> collapse_spaces t = t"
proof (induction t rule: collapsed.induct)
  case 1
  then show ?case by simp
next
  case (2 x)
  then show ?case by simp
next
  case (3 x y r)
  then show ?case by (cases "is_space x") auto
qed

lemma collapsed_last: "collapsed t \<Longrightarrow> t \<noteq> [] \<Longrightarrow> \<not> is_space (last t)"
  by (induction t rule: collapsed.induct) auto

lemma trim_fix:
  assumes "t = [] \<or> (\<not> is_space (hd t) \<and> \<not> is_space (last t))"
  shows "trim t = t"
proof (cases t)
  case Nil
  then show ?thesis by (simp add: trim_def)
next
  case (Cons x xs)
  with assms have h: "\<not> is_space x" and l: "\<not> is_space (last t)" by auto
  from h Cons have 1: "dropWhile is_space t = t" by simp
  have "rev t \<noteq> []" using Cons by simp
  then obtain z zs where zs: "rev t = z # zs" by (cases "rev t") blast+
  have "hd (rev t) = last t" using Cons by (simp add: hd_rev)
  with zs l have "\<not> is_space z" by simp
  then have 2: "dropWhile is_space (rev t) = rev t" unfolding zs by simp
  show ?thesis unfolding trim_def 1 2 by simp
qed

lemma trim_ends: "trim s = [] \<or> (\<not> is_space (hd (trim s)) \<and> \<not> is_space (last (trim s)))"
proof -
  let ?w = "dropWhile is_space s"
  let ?v = "dropWhile is_space (rev ?w)"
  show ?thesis
  proof (cases "?v = []")
    case True
    then show ?thesis by (simp add: trim_def)
  next
    case False
    then have hv: "\<not> is_space (hd ?v)" by (rule hd_dropWhile)
    have w: "?w \<noteq> []"
    proof
      assume a: "?w = []"
      have "?v = []" unfolding a by simp
      with False show False ..
    qed
    then have hw: "\<not> is_space (hd ?w)" by (rule hd_dropWhile)
    have "last ?v = last (rev ?w)" using False by (metis last_appendR takeWhile_dropWhile_id)
    also have "\<dots> = hd ?w" using w by (simp add: last_rev)
    finally have lv: "\<not> is_space (last ?v)" using hw by simp
    have "hd (trim s) = last ?v" using False by (simp add: trim_def hd_rev)
    moreover have "last (trim s) = hd ?v" using False by (simp add: trim_def last_rev)
    ultimately show ?thesis using hv lv by simp
  qed
qed

lemma normalize_idem: "normalize (normalize s) = normalize s"
proof -
  let ?t = "trim s"
  let ?n = "collapse_spaces ?t"
  from trim_ends[of s] have e: "?t = [] \<or> (\<not> is_space (hd ?t) \<and> \<not> is_space (last ?t))" .
  then have c: "collapsed ?n" by (intro collapsed_collapse) auto
  have "?n = [] \<or> (\<not> is_space (hd ?n) \<and> \<not> is_space (last ?n))"
  proof (cases "?t = []")
    case True
    then show ?thesis by simp
  next
    case False
    with e have "hd ?n = hd ?t" by (intro hd_collapse_spaces) auto
    moreover have "?n \<noteq> []" using False by simp
    ultimately show ?thesis using e c False collapsed_last by auto
  qed
  then have "trim ?n = ?n" by (rule trim_fix)
  then show ?thesis unfolding normalize_collapse using collapsed_fix[OF c] by simp
qed

text \<open>
  C10.  The parser collapses its input itself, and collapsing is idempotent: a string and
  its collapsed form (trimmed, every run of white space one space) are parsed to the same
  record or are both rejected.
\<close>

theorem parseDonationMessage_collapse_invariant:
  "normalize s = collapse_spaces (trim s)
   \<and> parseDonationMessage rnd (collapse_spaces (trim s)) = parseDonationMessage rnd s"
proof
  show n: "normalize s = collapse_spaces (trim s)" by (rule normalize_collapse)
  have "parseDonationMessage rnd (normalize s) = parseDonationMessage rnd s"
    by (simp add: parseDonationMessage_def normalize_idem)
  then show "parseDonationMessage rnd (collapse_spaces (trim s)) = parseDonationMessage rnd s"
    unfolding n .
qed

section \<open>The number of pages\<close>















section \<open>Filtering by comments\<close>

lemma js_includes_iff: "js_includes s t \<longleftrightarrow> (\<exists>pre post. s = pre @ t @ post)"
proof (induction s)
  case Nil
  then show ?case by simp
next
  case (Cons x xs)
  show ?case
  proof
    assume "js_includes (x # xs) t"
    then have "take (length t) (x # xs) = t \<or> js_includes xs t" by simp
    then show "\<exists>pre post. x # xs = pre @ t @ post"
    proof
      assume "take (length t) (x # xs) = t"
      then have "x # xs = [] @ t @ drop (length t) (x # xs)"
        by (metis append_Nil append_take_drop_id)
      then show ?thesis by blast
    next
      assume "js_includes xs t"
      then obtain pre post where "xs = pre @ t @ post" using Cons.IH by blast
      then have "x # xs = (x # pre) @ t @ post" by simp
      then show ?thesis by blast
    qed
  next
    assume "\<exists>pre post. x # xs = pre @ t @ post"
    then obtain pre post where e: "x # xs = pre @ t @ post" by blast
    show "js_includes (x # xs) t"
    proof (cases pre)
      case Nil
      with e have "take (length t) (x # xs) = t" by simp
      then show ?thesis by simp
    next
      case (Cons y ys)
      with e have "xs = ys @ t @ post" by simp
      then have "js_includes xs t" using Cons.IH by blast
      then show ?thesis by simp
    qed
  qed
qed

text \<open>
  C4.  Without terms (none, or an empty list) \<open>filterDonationsByComments\<close> returns the
  whole record set as it is.  With terms it keeps, in their order, exactly the records
  that have a comment in which, both put to lower case, some trimmed term occurs as a
  substring; a record without comment is never kept.  The comments of parsed records are
  never the empty string, which is the hypothesis on the record set.
\<close>

theorem filterDonationsByComments_spec:
  assumes "\<forall>d \<in> set (donations s). comment d \<noteq> Some []"
  shows "filterDonationsByComments lower s None = donations s
     \<and> filterDonationsByComments lower s (Some []) = donations s
     \<and> (terms \<noteq> [] \<longrightarrow>
          filterDonationsByComments lower s (Some terms) =
            filter (\<lambda>d. \<exists>c. comment d = Some c
                      \<and> (\<exists>t \<in> set terms. \<exists>pre post. lower c = pre @ trim (lower t) @ post))
              (donations s))
     \<and> (\<forall>d \<in> set (filterDonationsByComments lower s (Some terms)).
           terms \<noteq> [] \<longrightarrow> comment d \<noteq> None)"
proof (intro conjI impI ballI)
  show "filterDonationsByComments lower s None = donations s"
    by (simp add: filterDonationsByComments_def)
  show "filterDonationsByComments lower s (Some []) = donations s"
    by (simp add: filterDonationsByComments_def)
next
  assume t: "terms \<noteq> []"
  have "\<And>d. d \<in> set (donations s) \<Longrightarrow>
      (truthy (comment d) \<and> list_ex (\<lambda>t. js_includes (lower (the (comment d))) (trim (lower t))) terms)
      = (\<exists>c. comment d = Some c \<and> (\<exists>t \<in> set terms. \<exists>pre post. lower c = pre @ trim (lower t) @ post))"
    using assms by (auto simp: truthy_def list_ex_iff js_includes_iff split: option.splits)
  then show "filterDonationsByComments lower s (Some terms) =
            filter (\<lambda>d. \<exists>c. comment d = Some c
                      \<and> (\<exists>t \<in> set terms. \<exists>pre post. lower c = pre @ trim (lower t) @ post))
              (donations s)"
    using t by (simp add: filterDonationsByComments_def cong: filter_cong)
next
  fix d assume "d \<in> set (filterDonationsByComments lower s (Some terms))" "terms \<noteq> []"
  then show "comment d \<noteq> None"
    by (auto simp: filterDonationsByComments_def truthy_def split: option.splits)
qed

theorem filterDonationsByComments_spec_witness:
  "list_all (\<lambda>d. comment d \<noteq> Some []) (donations (hay_and_cat (\<lambda>v. v)))
   \<and> filterDonationsByComments (\<lambda>t. t) (hay_and_cat (\<lambda>v. v)) None
       = donations (hay_and_cat (\<lambda>v. v))
   \<and> filter (\<lambda>d. \<exists>c. comment d = Some c
          \<and> (\<exists>t \<in> set [[1083, 1086, 1096, 1072, 1076]].
                \<exists>pre post. c = pre @ trim t @ post))
        (donations (hay_and_cat (\<lambda>v. v)))
       = [hd (donations (hay_and_cat (\<lambda>v. v)))]"
proof -
  have h: "\<forall>d \<in> set (donations (hay_and_cat (\<lambda>v. v))). comment d \<noteq> Some []"
    by (simp add: hay_and_cat_def new_scraper_def)
  have e: "filterDonationsByComments (\<lambda>t. t) (hay_and_cat (\<lambda>v. v))
        (Some [[1083, 1086, 1096, 1072, 1076]]) = [hd (donations (hay_and_cat (\<lambda>v. v)))]"
    by (simp add: filterDonationsByComments_def hay_and_cat_def new_scraper_def truthy_def
          trim_def is_space_def)
  from filterDonationsByComments_spec[OF h, of "\<lambda>t. t" "[[1083, 1086, 1096, 1072, 1076]]"]
  have "filterDonationsByComments (\<lambda>t. t) (hay_and_cat (\<lambda>v. v)) None
       = donations (hay_and_cat (\<lambda>v. v))"
    and "filterDonationsByComments (\<lambda>t. t) (hay_and_cat (\<lambda>v. v))
        (Some [[1083, 1086, 1096, 1072, 1076]]) =
       filter (\<lambda>d. \<exists>c. comment d = Some c
          \<and> (\<exists>t \<in> set [[1083, 1086, 1096, 1072, 1076]].
                \<exists>pre post. c = pre @ trim t @ post))
        (donations (hay_and_cat (\<lambda>v. v)))"
    by simp_all
  with e h show ?thesis by (simp add: list_all_iff)
qed

section \<open>Fetching a page with retries\<close>

declare fetch_loop.simps [simp del]

lemma backoff_waits_append [simp]: "backoff_waits (xs @ ys) = backoff_waits xs @ backoff_waits ys"
  by (induction xs rule: backoff_waits.induct) auto






end
